theory Spec2Isabelle
  imports Main "HOL-Library.Char_ord" "HOL-Library.List_Lexorder"
begin

section \<open>Data model of viewer.py\<close>

text \<open>
  Paths are Python strings. A decoded bitmap (\<open>QImage\<close>) is opaque to the control
  logic and is represented by a handle. The \<open>info\<close> and \<open>meta\<close> dictionaries
  are association lists from field name to text.
\<close>

type_synonym QImage = nat
type_synonym str_dict = "(string \<times> string) list"

datatype py_error = IndexError | KeyError | OSError

record CachedImage =
  qimage :: QImage
  info :: str_dict
  meta :: str_dict

subsection \<open>OrderedDict operations used by ImageCache\<close>

text \<open>
  An \<open>OrderedDict\<close> is an association list with distinct keys, oldest insertion
  first. \<open>pop(key, None)\<close> removes the key when present and returns its value;
  \<open>d[key] = value\<close> overwrites in place when the key exists and appends otherwise;
  \<open>popitem(last=False)\<close> removes the first entry and raises \<open>KeyError\<close> on an
  empty dictionary.
\<close>

definition od_keys :: "('k \<times> 'v) list \<Rightarrow> 'k list" where
  "od_keys m = map fst m"

definition od_pop :: "('k \<times> 'v) list \<Rightarrow> 'k \<Rightarrow> 'v option \<times> ('k \<times> 'v) list" where
  "od_pop m k = (map_of m k, filter (\<lambda>kv. fst kv \<noteq> k) m)"

definition od_set :: "('k \<times> 'v) list \<Rightarrow> 'k \<Rightarrow> 'v \<Rightarrow> ('k \<times> 'v) list" where
  "od_set m k v =
     (if k \<in> set (od_keys m) then map (\<lambda>kv. if fst kv = k then (k, v) else kv) m
      else m @ [(k, v)])"

subsection \<open>ImageCache\<close>

record ImageCache =
  capacity :: int
  items :: "(string \<times> CachedImage) list"

definition ImageCache_init :: "int \<Rightarrow> ImageCache" where
  "ImageCache_init c = \<lparr>capacity = max 1 c, items = []\<rparr>"

definition cache_get :: "ImageCache \<Rightarrow> string \<Rightarrow> CachedImage option \<times> ImageCache" where
  "cache_get c path =
     (case od_pop (items c) path of
        (None, _) \<Rightarrow> (None, c)
      | (Some item, m) \<Rightarrow> (Some item, c\<lparr>items := od_set m path item\<rparr>))"

text \<open>The loop \<open>while len(self._items) > self.capacity: self._items.popitem(last=False)\<close>.\<close>

fun evict :: "('k \<times> 'v) list \<Rightarrow> int \<Rightarrow> py_error + ('k \<times> 'v) list" where
  "evict [] cap = (if 0 > cap then Inl KeyError else Inr [])"
| "evict (kv # m) cap = (if int (length (kv # m)) > cap then evict m cap else Inr (kv # m))"

definition cache_put :: "ImageCache \<Rightarrow> string \<Rightarrow> CachedImage \<Rightarrow> py_error + ImageCache" where
  "cache_put c path item =
     (let m1 = (if path \<in> set (od_keys (items c)) then snd (od_pop (items c) path) else items c);
          m2 = od_set m1 path item
      in case evict m2 (capacity c) of
           Inl e \<Rightarrow> Inl e
         | Inr m3 \<Rightarrow> Inr (c\<lparr>items := m3\<rparr>))"

subsection \<open>Sequences of cache operations and their touch history\<close>

datatype cache_op = Put string CachedImage | Get string

fun op_key :: "cache_op \<Rightarrow> string" where
  "op_key (Put p _) = p"
| "op_key (Get p) = p"

fun apply_op :: "ImageCache \<Rightarrow> cache_op \<Rightarrow> py_error + ImageCache" where
  "apply_op c (Put p item) = cache_put c p item"
| "apply_op c (Get p) = Inr (snd (cache_get c p))"

fun run_ops :: "ImageCache \<Rightarrow> cache_op list \<Rightarrow> py_error + ImageCache" where
  "run_ops c [] = Inr c"
| "run_ops c (x # xs) = (case apply_op c x of Inl e \<Rightarrow> Inl e | Inr c' \<Rightarrow> run_ops c' xs)"

text \<open>
  \<open>last_touch ops k\<close> is the position (counted from 1) of the last operation of
  \<open>ops\<close> that names key \<open>k\<close>, and 0 when no operation names it. It is computed from
  the operations alone, not from the cache.
\<close>

fun last_touch :: "cache_op list \<Rightarrow> string \<Rightarrow> nat" where
  "last_touch [] k = 0"
| "last_touch (x # xs) k =
     (if last_touch xs k > 0 then Suc (last_touch xs k)
      else if op_key x = k then 1 else 0)"

text \<open>
  The invariant of a cache reached by the operations \<open>ops\<close>: capacity at least 1,
  size within capacity, distinct keys, and keys ordered by their last touch.
\<close>

definition lru_inv :: "cache_op list \<Rightarrow> ImageCache \<Rightarrow> bool" where
  "lru_inv ops c \<longleftrightarrow>
     1 \<le> capacity c \<and> int (length (items c)) \<le> capacity c \<and>
     distinct (od_keys (items c)) \<and>
     sorted_wrt (\<lambda>a b. last_touch ops a < last_touch ops b) (od_keys (items c))"

text \<open>A cached image with bitmap handle \<open>n\<close> and empty dictionaries.\<close>

definition img :: "nat \<Rightarrow> CachedImage" where
  "img n = \<lparr>qimage = n, info = [], meta = []\<rparr>"


section \<open>Python list and path helpers\<close>

text \<open>
  \<open>xs[i]\<close> and \<open>xs.pop(i)\<close> accept \<open>-len(xs) \<le> i < len(xs)\<close>, a negative
  index counting from the end, and raise \<open>IndexError\<close> otherwise.
\<close>

definition py_norm_index :: "nat \<Rightarrow> int \<Rightarrow> nat option" where
  "py_norm_index len i =
     (if - int len \<le> i \<and> i < 0 then Some (nat (int len + i))
      else if 0 \<le> i \<and> i < int len then Some (nat i)
      else None)"

definition py_index :: "'a list \<Rightarrow> int \<Rightarrow> py_error + 'a" where
  "py_index xs i =
     (case py_norm_index (length xs) i of
        None \<Rightarrow> Inl IndexError
      | Some j \<Rightarrow> Inr (xs ! j))"

definition py_pop :: "'a list \<Rightarrow> int \<Rightarrow> py_error + ('a \<times> 'a list)" where
  "py_pop xs i =
     (case py_norm_index (length xs) i of
        None \<Rightarrow> Inl IndexError
      | Some j \<Rightarrow> Inr (xs ! j, take j xs @ drop (Suc j) xs))"

text \<open>\<open>xs.index(x)\<close> for an \<open>x\<close> that occurs in \<open>xs\<close>: the first position.\<close>

fun list_index :: "'a list \<Rightarrow> 'a \<Rightarrow> nat" where
  "list_index [] x = 0"
| "list_index (y # ys) x = (if y = x then 0 else Suc (list_index ys x))"

text \<open>
  \<open>os.path.basename\<close>: the text after the last path separator (\<open>/\<close> or
  \<open>\\<close>), as on Windows for the absolute paths held in \<open>image_files\<close>.
\<close>

definition is_sep :: "char \<Rightarrow> bool" where
  "is_sep ch \<longleftrightarrow> ch = CHR ''/'' \<or> ch = CHR 0x5C"

definition basename :: "string \<Rightarrow> string" where
  "basename p = rev (takeWhile (\<lambda>ch. \<not> is_sep ch) (rev p))"

text \<open>
  \<open>os.path.splitext(p)[1]\<close>: the text from the last dot of the last path
  component, provided some character other than a dot precedes that dot within the
  component; the empty string otherwise.
\<close>

definition splitext_ext :: "string \<Rightarrow> string" where
  "splitext_ext p =
     (let r = rev (basename p);
          e = takeWhile (\<lambda>ch. ch \<noteq> CHR ''.'') r;
          rest = dropWhile (\<lambda>ch. ch \<noteq> CHR ''.'') r
      in case rest of
           [] \<Rightarrow> []
         | d # stem \<Rightarrow> if (\<exists>ch \<in> set stem. ch \<noteq> CHR ''.'') then rev (e @ [d]) else [])"

text \<open>\<open>str.lower\<close> on the letters A to Z; other characters are kept.\<close>

definition lower_char :: "char \<Rightarrow> char" where
  "lower_char ch =
     (case map_of (zip ''ABCDEFGHIJKLMNOPQRSTUVWXYZ'' ''abcdefghijklmnopqrstuvwxyz'') ch of
        None \<Rightarrow> ch | Some l \<Rightarrow> l)"

definition lower :: "string \<Rightarrow> string" where
  "lower s = map lower_char s"

definition SUPPORTED_EXTENSIONS :: "string set" where
  "SUPPORTED_EXTENSIONS =
     {''.jpg'', ''.jpeg'', ''.png'', ''.bmp'', ''.gif'', ''.webp'', ''.tif'', ''.tiff'',
      ''.heic'', ''.heif'', ''.cr2'', ''.nef'', ''.arw'', ''.dng''}"

section \<open>FolderScanThread\<close>

text \<open>
  The file system answers \<open>os.scandir(folder)\<close> with the directory's entries or with
  an error; each entry has a name, a path and the answer (or error) of \<open>is_file()\<close>.
  \<open>os.path.abspath\<close> depends on the working directory and is a parameter.
\<close>

record dir_entry =
  entry_name :: string
  entry_path :: string
  entry_is_file :: "py_error + bool"

record scan_payload =
  payload_files :: "string list option"
  payload_index :: "int option"

record FolderScanThread =
  fs_token :: int
  fs_folder :: string
  fs_selected :: "string option"

definition FolderScanThread_init ::
  "(string \<Rightarrow> string) \<Rightarrow> int \<Rightarrow> string \<Rightarrow> string option \<Rightarrow> FolderScanThread" where
  "FolderScanThread_init abspath tok folder sel =
     \<lparr>fs_token = tok, fs_folder = folder,
      fs_selected = (case sel of None \<Rightarrow> None
                     | Some p \<Rightarrow> if p = [] then None else Some (abspath p))\<rparr>"

text \<open>The \<open>for entry in entries\<close> loop; an exception leaves the loop.\<close>

fun scan_entries :: "(string \<Rightarrow> string) \<Rightarrow> dir_entry list \<Rightarrow> string list \<Rightarrow> py_error + string list" where
  "scan_entries abspath [] files = Inr files"
| "scan_entries abspath (e # es) files =
     (case entry_is_file e of
        Inl err \<Rightarrow> Inl err
      | Inr b \<Rightarrow>
          if b \<and> lower (splitext_ext (entry_name e)) \<in> SUPPORTED_EXTENSIONS
          then scan_entries abspath es (files @ [abspath (entry_path e)])
          else scan_entries abspath es files)"

definition FolderScanThread_run ::
  "(string \<Rightarrow> py_error + dir_entry list) \<Rightarrow> (string \<Rightarrow> string) \<Rightarrow> FolderScanThread
     \<Rightarrow> int \<times> string \<times> scan_payload" where
  "FolderScanThread_run scandir abspath t =
     (let failed = (fs_token t, fs_folder t, \<lparr>payload_files = Some [], payload_index = Some 0\<rparr>)
      in case scandir (fs_folder t) of
           Inl err \<Rightarrow> failed
         | Inr entries \<Rightarrow>
             (case scan_entries abspath entries [] of
                Inl err \<Rightarrow> failed
              | Inr found \<Rightarrow>
                  let files = sort found;
                      idx = (case fs_selected t of
                               None \<Rightarrow> 0
                             | Some sel \<Rightarrow>
                                 if sel \<noteq> [] \<and> sel \<in> set files then int (list_index files sel) else 0)
                  in (fs_token t, fs_folder t,
                      \<lparr>payload_files = Some files, payload_index = Some idx\<rparr>)))"

section \<open>MainWindow\<close>

record ImageLoaderThread =
  thread_request_id :: int
  thread_path :: string
  thread_role :: string

text \<open>
  \<open>ThumbnailLoaderThread(token, self.image_files)\<close> keeps a reference to the list
  object it is given, not a copy. List objects are told apart by a number:
  \<open>image_files_id\<close> names the object bound to \<open>self.image_files\<close> and
  \<open>tl_files_id\<close> the object bound to the thread's \<open>files\<close>. Two references with
  the same number are the same object, so a change made in place through one of them
  is seen through the other.
\<close>

record ThumbnailLoaderThread =
  tl_token :: int
  tl_files :: "string list"
  tl_files_id :: nat

datatype window_title = TitleInitial | TitleImage int nat string

text \<open>
  The fields of \<open>MainWindow\<close> that the control logic reads and writes. Of the widgets,
  the state keeps what the handlers set: the pixmap shown by the viewer
  (\<open>viewer_item\<close>), the rows and the current row of the thumbnail list, the text of
  the metadata panel and of the status labels, the last status-bar message, the window
  title, and the number of information boxes shown. \<open>started\<close> records the calls of
  \<open>thread.start()\<close> on image loader threads, in order; \<open>scan_thread\<close> and
  \<open>thumb_thread\<close> are the last scan and thumbnail threads started.
  \<open>next_list_id\<close> is the number given to the next list object that the window
  meets. Zoom, rotation and scene geometry of the viewer are floating-point rendering
  state and are left out.
\<close>

record MainWindow =
  image_files :: "string list"
  current_index :: int
  cache :: ImageCache
  current_info :: str_dict
  current_meta :: str_dict
  thumb_preview :: "(string \<times> QImage) list"
  thumb_index :: "(string \<times> int) list"
  inflight_loads :: "string set"
  request_id :: int
  scan_token :: int
  thumb_token :: int
  loaders :: "ImageLoaderThread list"
  started :: "ImageLoaderThread list"
  scan_thread :: "FolderScanThread option"
  thumb_thread :: "ThumbnailLoaderThread option"
  viewer_item :: "QImage option"
  thumbnail_rows :: "(string \<times> string \<times> QImage option) list"
  thumbnail_current_row :: int
  meta_panel :: str_dict
  status_labels :: "string \<times> string \<times> string"
  status_message :: string
  title :: window_title
  info_boxes :: nat
  image_files_id :: nat
  next_list_id :: nat

definition dict_get :: "('k \<times> 'v) list \<Rightarrow> 'k \<Rightarrow> 'v \<Rightarrow> 'v" where
  "dict_get d k dflt = (case map_of d k of None \<Rightarrow> dflt | Some v \<Rightarrow> v)"

definition meta_keys :: "string list" where
  "meta_keys = [''Camera'', ''ISO'', ''Shutter'', ''Aperture'', ''Focal Length'', ''Date Taken'', ''GPS'']"

definition MetadataPanel_set_data :: "str_dict option \<Rightarrow> str_dict" where
  "MetadataPanel_set_data data =
     (let d = (case data of None \<Rightarrow> [] | Some x \<Rightarrow> x)
      in map (\<lambda>k. (k, dict_get d k ''-'')) meta_keys)"

definition MainWindow_init :: MainWindow where
  "MainWindow_init =
     \<lparr>image_files = [], current_index = -1, cache = ImageCache_init 15,
      current_info = [], current_meta = [], thumb_preview = [], thumb_index = [],
      inflight_loads = {}, request_id = 0, scan_token = 0, thumb_token = 0,
      loaders = [], started = [], scan_thread = None, thumb_thread = None,
      viewer_item = None, thumbnail_rows = [], thumbnail_current_row = -1,
      meta_panel = MetadataPanel_set_data None,
      status_labels = (''File: -'', ''Resolution: -'', ''Mode: -''),
      status_message = [], title = TitleInitial, info_boxes = 0,
      image_files_id = 0, next_list_id = 1\<rparr>"

definition update_status :: "MainWindow \<Rightarrow> MainWindow" where
  "update_status s =
     s\<lparr>status_labels :=
         (''File: '' @ dict_get (current_info s) ''filename'' ''-'',
          ''Resolution: '' @ dict_get (current_info s) ''resolution'' ''-'',
          ''Mode: '' @ dict_get (current_info s) ''mode'' ''-'')\<rparr>"

text \<open>
  \<open>ImageViewer.set_image\<close> and \<open>clear_view\<close> emit \<open>zoom_changed\<close>, which is
  connected to \<open>_update_status\<close>.
\<close>

definition viewer_set_image :: "MainWindow \<Rightarrow> QImage \<Rightarrow> MainWindow" where
  "viewer_set_image s im = update_status (s\<lparr>viewer_item := Some im\<rparr>)"

definition viewer_clear_view :: "MainWindow \<Rightarrow> MainWindow" where
  "viewer_clear_view s = update_status (s\<lparr>viewer_item := None\<rparr>)"

definition scan_folder :: "(string \<Rightarrow> string) \<Rightarrow> MainWindow \<Rightarrow> string \<Rightarrow> string option \<Rightarrow> MainWindow" where
  "scan_folder abspath s folder sel =
     (let s1 = s\<lparr>status_message := ''Scanning folder...''\<rparr>;
          s2 = s1\<lparr>scan_token := scan_token s1 + 1\<rparr>
      in s2\<lparr>scan_thread := Some (FolderScanThread_init abspath (scan_token s2) folder sel)\<rparr>)"

definition enumerate_dict :: "string list \<Rightarrow> (string \<times> int) list" where
  "enumerate_dict files =
     foldl (\<lambda>d (i, p). od_set d p (int i)) [] (zip [0..<length files] files)"

definition populate_thumbnails :: "MainWindow \<Rightarrow> MainWindow" where
  "populate_thumbnails s =
     (let s1 = s\<lparr>thumbnail_rows := [], thumbnail_current_row := -1\<rparr>;
          s2 = s1\<lparr>thumb_index := enumerate_dict (image_files s1)\<rparr>;
          s3 = s2\<lparr>thumbnail_rows := map (\<lambda>p. (basename p, p, None)) (image_files s2)\<rparr>
      in if 0 \<le> current_index s3 \<and> current_index s3 < int (length (thumbnail_rows s3))
         then s3\<lparr>thumbnail_current_row := current_index s3\<rparr> else s3)"

definition start_thumbnail_loader :: "MainWindow \<Rightarrow> MainWindow" where
  "start_thumbnail_loader s =
     (let s1 = s\<lparr>thumb_token := thumb_token s + 1\<rparr>
      in s1\<lparr>thumb_thread :=
              Some \<lparr>tl_token = thumb_token s1, tl_files = image_files s1,
                    tl_files_id = image_files_id s1\<rparr>\<rparr>)"

definition sync_thumb_selection :: "MainWindow \<Rightarrow> MainWindow" where
  "sync_thumb_selection s =
     (if 0 \<le> current_index s \<and> current_index s < int (length (thumbnail_rows s))
      then s\<lparr>thumbnail_current_row := current_index s\<rparr> else s)"

definition display :: "MainWindow \<Rightarrow> string \<Rightarrow> CachedImage \<Rightarrow> MainWindow" where
  "display s p cached =
     (let s1 = viewer_set_image s (qimage cached);
          s2 = s1\<lparr>current_info := info cached\<rparr>;
          s3 = s2\<lparr>current_meta := meta cached\<rparr>;
          s4 = s3\<lparr>meta_panel := MetadataPanel_set_data (Some (current_meta s3))\<rparr>;
          s5 = update_status s4
      in s5\<lparr>title := TitleImage (current_index s5 + 1) (length (image_files s5)) (basename p)\<rparr>)"

definition request_load :: "MainWindow \<Rightarrow> string \<Rightarrow> string \<Rightarrow> int option \<times> MainWindow" where
  "request_load s p r =
     (if p \<in> inflight_loads s then (None, s)
      else
        let s1 = s\<lparr>request_id := request_id s + 1\<rparr>;
            req = request_id s1;
            thread = \<lparr>thread_request_id = req, thread_path = p, thread_role = r\<rparr>;
            s2 = s1\<lparr>inflight_loads := insert p (inflight_loads s1)\<rparr>;
            s3 = s2\<lparr>loaders := loaders s2 @ [thread]\<rparr>;
            s4 = s3\<lparr>started := started s3 @ [thread]\<rparr>
        in (Some req, s4))"

definition drop_loader :: "MainWindow \<Rightarrow> ImageLoaderThread \<Rightarrow> MainWindow" where
  "drop_loader s thread =
     (let s1 = s\<lparr>inflight_loads := inflight_loads s - {thread_path thread}\<rparr>
      in if thread \<in> set (loaders s1) then s1\<lparr>loaders := remove1 thread (loaders s1)\<rparr> else s1)"

text \<open>One round of the loop \<open>for off in (-1, 1)\<close> of \<open>_preload_neighbors\<close>.\<close>

definition preload_step :: "MainWindow \<Rightarrow> int \<Rightarrow> MainWindow" where
  "preload_step s off =
     (let idx = current_index s + off
      in if 0 \<le> idx \<and> idx < int (length (image_files s)) then
           let p = image_files s ! nat idx;
               (hit, c) = cache_get (cache s) p;
               s1 = s\<lparr>cache := c\<rparr>
           in if hit = None then snd (request_load s1 p ''preload'') else s1
         else s)"

definition preload_neighbors :: "MainWindow \<Rightarrow> MainWindow" where
  "preload_neighbors s =
     (if image_files s = [] then s else foldl preload_step s [-1, 1])"

definition load_current :: "MainWindow \<Rightarrow> MainWindow" where
  "load_current s =
     (if \<not> (0 \<le> current_index s \<and> current_index s < int (length (image_files s))) then s
      else
        let p = image_files s ! nat (current_index s);
            (hit, c) = cache_get (cache s) p;
            s1 = s\<lparr>cache := c\<rparr>;
            s2 = (case hit of
                    Some cached \<Rightarrow> display s1 p cached
                  | None \<Rightarrow>
                      let s3 = (case map_of (thumb_preview s1) p of
                                  Some preview \<Rightarrow>
                                    let v1 = viewer_set_image s1 preview;
                                        v2 = v1\<lparr>current_info :=
                                               [(''filename'', basename p),
                                                (''resolution'', ''Preview''), (''mode'', ''RGB'')]\<rparr>;
                                        v3 = v2\<lparr>current_meta := []\<rparr>;
                                        v4 = v3\<lparr>meta_panel := MetadataPanel_set_data None\<rparr>
                                    in update_status v4
                                | None \<Rightarrow> s1);
                          s4 = snd (request_load s3 p ''main'')
                      in s4\<lparr>status_message := ''Loading image...''\<rparr>)
        in preload_neighbors (sync_thumb_selection s2))"

text \<open>
  \<open>self.image_files = files\<close> binds the attribute to the list object carried by the
  payload. Every scan thread builds its list in its own \<open>run\<close> and emits once, so
  this object is new to the window and gets the next number.
\<close>

definition bind_image_files :: "MainWindow \<Rightarrow> string list \<Rightarrow> MainWindow" where
  "bind_image_files s files =
     s\<lparr>image_files := files, image_files_id := next_list_id s,
       next_list_id := Suc (next_list_id s)\<rparr>"

text \<open>
  A change made in place to the list object bound to \<open>self.image_files\<close>, leaving it
  with the contents \<open>rest\<close>: the thumbnail thread sees the change when its
  \<open>files\<close> is that same object.
\<close>

definition mutate_image_files :: "MainWindow \<Rightarrow> string list \<Rightarrow> MainWindow" where
  "mutate_image_files s rest =
     s\<lparr>image_files := rest,
       thumb_thread :=
         map_option (\<lambda>t. if tl_files_id t = image_files_id s then t\<lparr>tl_files := rest\<rparr> else t)
           (thumb_thread s)\<rparr>"

definition on_scanned :: "MainWindow \<Rightarrow> int \<Rightarrow> string \<Rightarrow> scan_payload \<Rightarrow> MainWindow" where
  "on_scanned s tok folder payload =
     (if tok \<noteq> scan_token s then s
      else
        let files = (case payload_files payload of None \<Rightarrow> [] | Some fs \<Rightarrow> fs);
            idx = (case payload_index payload of None \<Rightarrow> 0 | Some i \<Rightarrow> i)
        in if files = [] then s\<lparr>info_boxes := Suc (info_boxes s)\<rparr>
           else
             let s1 = bind_image_files s files;
                 s2 = s1\<lparr>thumb_preview := []\<rparr>;
                 s3 = s2\<lparr>thumb_index := enumerate_dict (image_files s2)\<rparr>;
                 s4 = s3\<lparr>current_index := max 0 (min idx (int (length files) - 1))\<rparr>
             in load_current (start_thumbnail_loader (populate_thumbnails s4)))"

definition next_image :: "MainWindow \<Rightarrow> MainWindow" where
  "next_image s =
     (if image_files s = [] then s
      else load_current (s\<lparr>current_index := (current_index s + 1) mod int (length (image_files s))\<rparr>))"

definition prev_image :: "MainWindow \<Rightarrow> MainWindow" where
  "prev_image s =
     (if image_files s = [] then s
      else load_current (s\<lparr>current_index := (current_index s - 1) mod int (length (image_files s))\<rparr>))"

definition skip_corrupted_current :: "MainWindow \<Rightarrow> py_error + MainWindow" where
  "skip_corrupted_current s =
     (if image_files s = [] then Inr (viewer_clear_view s)
      else if length (image_files s) = 1 then Inr (viewer_clear_view s)
      else
        case py_pop (image_files s) (current_index s) of
          Inl err \<Rightarrow> Inl err
        | Inr (bad, rest) \<Rightarrow>
            let s1 = mutate_image_files s rest;
                s2 = s1\<lparr>status_message := ''Skipped corrupted file: '' @ basename bad\<rparr>;
                s3 = (if current_index s2 \<ge> int (length (image_files s2))
                      then s2\<lparr>current_index := int (length (image_files s2)) - 1\<rparr> else s2)
            in Inr (load_current (populate_thumbnails s3)))"

text \<open>
  \<open>cur_path\<close> of \<open>_on_loaded\<close>:
  \<open>self.image_files[self.current_index] if self.image_files and self.current_index >= 0 else None\<close>.
\<close>

definition cur_path :: "MainWindow \<Rightarrow> py_error + string option" where
  "cur_path s =
     (if image_files s \<noteq> [] \<and> current_index s \<ge> 0
      then (case py_index (image_files s) (current_index s) of
              Inl err \<Rightarrow> Inl err | Inr p \<Rightarrow> Inr (Some p))
      else Inr None)"

definition on_loaded ::
  "MainWindow \<Rightarrow> int \<Rightarrow> string \<Rightarrow> QImage option \<Rightarrow> str_dict option \<Rightarrow> str_dict option \<Rightarrow> string
     \<Rightarrow> py_error + MainWindow" where
  "on_loaded s rid p q_opt i_opt m_opt r =
     (case (q_opt, i_opt, m_opt) of
        (Some q, Some i, Some m) \<Rightarrow>
          (let cached = \<lparr>qimage = q, info = i, meta = m\<rparr>
           in case cache_put (cache s) p cached of
                Inl err \<Rightarrow> Inl err
              | Inr c \<Rightarrow>
                  let s1 = s\<lparr>cache := c\<rparr>
                  in (case cur_path s1 of
                        Inl err \<Rightarrow> Inl err
                      | Inr cp \<Rightarrow> if Some p = cp then Inr (display s1 p cached) else Inr s1))
      | _ \<Rightarrow>
          (case cur_path s of
             Inl err \<Rightarrow> Inl err
           | Inr cp \<Rightarrow>
               if Some p = cp
               then skip_corrupted_current (s\<lparr>status_message := ''Failed to load: '' @ basename p\<rparr>)
               else Inr s))"

subsection \<open>The remaining handlers that change the navigation state\<close>

text \<open>\<open>str(n)\<close> for an integer, as the f-strings of the status messages print it.\<close>

fun str_nat :: "nat \<Rightarrow> string" where
  "str_nat n =
     (if n < 10 then [''0123456789'' ! n]
      else str_nat (n div 10) @ [''0123456789'' ! (n mod 10)])"

definition str_int :: "int \<Rightarrow> string" where
  "str_int i = (if i < 0 then CHR ''-'' # str_nat (nat (- i)) else str_nat (nat i))"

text \<open>
  \<open>QListWidget.item(idx)\<close> is \<open>None\<close> for an index outside the rows, and
  \<open>setIcon\<close> replaces the icon of the row.
\<close>

definition on_thumbnail_ready :: "MainWindow \<Rightarrow> int \<Rightarrow> string \<Rightarrow> QImage \<Rightarrow> MainWindow" where
  "on_thumbnail_ready s tok p q =
     (if tok \<noteq> thumb_token s then s
      else
        let s1 = s\<lparr>thumb_preview := od_set (thumb_preview s) p q\<rparr>
        in case map_of (thumb_index s1) p of
             None \<Rightarrow> s1
           | Some idx \<Rightarrow>
               if 0 \<le> idx \<and> idx < int (length (thumbnail_rows s1))
               then s1\<lparr>thumbnail_rows :=
                        (thumbnail_rows s1)
                          [nat idx := (fst (thumbnail_rows s1 ! nat idx),
                                       fst (snd (thumbnail_rows s1 ! nat idx)), Some q)]\<rparr>
               else s1)"

text \<open>
  \<open>on_thumbnail_clicked\<close> receives the clicked item; \<open>row\<close> is
  \<open>self.thumbnail_list.row(item)\<close>.
\<close>

definition on_thumbnail_clicked :: "MainWindow \<Rightarrow> int \<Rightarrow> MainWindow" where
  "on_thumbnail_clicked s row =
     (if 0 \<le> row \<and> row < int (length (image_files s))
      then load_current (s\<lparr>current_index := row\<rparr>) else s)"

text \<open>
  In \<open>_move_selection_only\<close> the index read by \<open>self.image_files[self.current_index]\<close>
  has just been reduced modulo the length of a non-empty list, so the read cannot raise.
\<close>

definition move_selection_only :: "MainWindow \<Rightarrow> int \<Rightarrow> MainWindow" where
  "move_selection_only s step =
     (if image_files s = [] then s
      else
        let s1 = s\<lparr>current_index := (current_index s + step) mod int (length (image_files s))\<rparr>;
            s2 = sync_thumb_selection s1;
            name = basename (image_files s2 ! nat (current_index s2))
        in s2\<lparr>status_message :=
                ''Selected '' @ str_int (current_index s2 + 1) @ ''/'' @
                str_nat (length (image_files s2)) @ '': '' @ name @
                '' (Press Enter/Space to display)''\<rparr>)"

definition open_selected :: "MainWindow \<Rightarrow> MainWindow" where
  "open_selected s =
     (if image_files s = [] then s
      else
        let row = thumbnail_current_row s;
            s1 = (if 0 \<le> row \<and> row < int (length (image_files s))
                  then s\<lparr>current_index := row\<rparr> else s)
        in load_current s1)"

section \<open>Events delivered to the window\<close>

text \<open>
  The control thread handles one event at a time. \<open>ScanFolder\<close> stands for
  \<open>open_file\<close> and \<open>open_folder\<close>, which both end in \<open>_scan_folder\<close>;
  \<open>SelectRow\<close> is the user moving the current row of the thumbnail list to an
  existing row; \<open>Finished t\<close> is the signal \<open>finished\<close> of the loader thread
  \<open>t\<close>, which Qt emits once, after the thread has been started and its \<open>run\<close> has
  returned. A \<open>world\<close> is the window together with the set of loader threads that
  have ended; the threads still running are those started and not ended.
\<close>

datatype event =
    ScanFolder string "string option"
  | Scanned int string scan_payload
  | ThumbnailReady int string QImage
  | SelectRow int
  | ThumbnailClicked int
  | NextImage
  | PrevImage
  | MoveSelection int
  | OpenSelected
  | Loaded int string "QImage option" "str_dict option" "str_dict option" string
  | Finished ImageLoaderThread

record world =
  win :: MainWindow
  ended :: "ImageLoaderThread set"

definition world_init :: world where
  "world_init = \<lparr>win = MainWindow_init, ended = {}\<rparr>"

definition running :: "world \<Rightarrow> ImageLoaderThread list" where
  "running w = filter (\<lambda>t. t \<notin> ended w) (started (win w))"

fun fire :: "(string \<Rightarrow> string) \<Rightarrow> world \<Rightarrow> event \<Rightarrow> py_error + world" where
  "fire abspath w (ScanFolder folder sel) = Inr (w\<lparr>win := scan_folder abspath (win w) folder sel\<rparr>)"
| "fire abspath w (Scanned tok folder payload) = Inr (w\<lparr>win := on_scanned (win w) tok folder payload\<rparr>)"
| "fire abspath w (ThumbnailReady tok p q) = Inr (w\<lparr>win := on_thumbnail_ready (win w) tok p q\<rparr>)"
| "fire abspath w (SelectRow row) =
     (if 0 \<le> row \<and> row < int (length (thumbnail_rows (win w)))
      then Inr (w\<lparr>win := (win w)\<lparr>thumbnail_current_row := row\<rparr>\<rparr>) else Inr w)"
| "fire abspath w (ThumbnailClicked row) = Inr (w\<lparr>win := on_thumbnail_clicked (win w) row\<rparr>)"
| "fire abspath w NextImage = Inr (w\<lparr>win := next_image (win w)\<rparr>)"
| "fire abspath w PrevImage = Inr (w\<lparr>win := prev_image (win w)\<rparr>)"
| "fire abspath w (MoveSelection step) = Inr (w\<lparr>win := move_selection_only (win w) step\<rparr>)"
| "fire abspath w OpenSelected = Inr (w\<lparr>win := open_selected (win w)\<rparr>)"
| "fire abspath w (Loaded rid p q i m r) =
     (case on_loaded (win w) rid p q i m r of
        Inl err \<Rightarrow> Inl err
      | Inr s \<Rightarrow> Inr (w\<lparr>win := s\<rparr>))"
| "fire abspath w (Finished t) =
     (if t \<in> set (started (win w)) \<and> t \<notin> ended w
      then Inr \<lparr>win = drop_loader (win w) t, ended = insert t (ended w)\<rparr>
      else Inr w)"

fun run_events :: "(string \<Rightarrow> string) \<Rightarrow> world \<Rightarrow> event list \<Rightarrow> py_error + world" where
  "run_events abspath w [] = Inr w"
| "run_events abspath w (e # es) =
     (case fire abspath w e of Inl err \<Rightarrow> Inl err | Inr w' \<Rightarrow> run_events abspath w' es)"


section \<open>Properties and example states used in the theorems\<close>

text \<open>
  The live loader threads have pairwise distinct paths, and each of these paths is
  in \<open>_inflight_loads\<close>.
\<close>

definition one_task_per_path :: "MainWindow \<Rightarrow> bool" where
  "one_task_per_path s \<longleftrightarrow>
     distinct (map thread_path (loaders s)) \<and>
     set (map thread_path (loaders s)) \<subseteq> inflight_loads s"

text \<open>A fresh window after two calls of \<open>_scan_folder\<close>.\<close>

definition two_scans :: MainWindow where
  "two_scans = scan_folder (\<lambda>p. p) (scan_folder (\<lambda>p. p) MainWindow_init ''d1'' None) ''d2'' None"

text \<open>
  A fresh window after \<open>_scan_folder\<close> and the arrival of its result with the given
  files and index.
\<close>

definition opened :: "string list \<Rightarrow> int \<Rightarrow> MainWindow" where
  "opened files idx =
     on_scanned (scan_folder (\<lambda>p. p) MainWindow_init ''dir'' None) 1 ''dir''
       \<lparr>payload_files = Some files, payload_index = Some idx\<rparr>"

text \<open>
  The paths visited by the loop of \<open>_preload_neighbors\<close>: those at
  \<open>current_index - 1\<close> and \<open>current_index + 1\<close> that pass the test
  \<open>0 <= idx < len(self.image_files)\<close>, in loop order.
\<close>

definition neighbor_paths :: "MainWindow \<Rightarrow> string list" where
  "neighbor_paths s =
     map (\<lambda>j. image_files s ! nat j)
       (filter (\<lambda>j. 0 \<le> j \<and> j < int (length (image_files s)))
          [current_index s - 1, current_index s + 1])"

text \<open>The key order of an \<open>OrderedDict\<close> after \<open>ImageCache.get\<close> on key \<open>p\<close>.\<close>

definition promote_key :: "string list \<Rightarrow> string \<Rightarrow> string list" where
  "promote_key ks p = (if p \<in> set ks then filter (\<lambda>k. k \<noteq> p) ks @ [p] else ks)"

text \<open>
  Files A, B, C opened at index 1, with a cache that holds A, C and B, least
  recently used first.
\<close>

definition warm_window :: MainWindow where
  "warm_window =
     (opened [''A'', ''B'', ''C''] 1)
       \<lparr>cache := \<lparr>capacity = 15, items = [(''A'', img 1), (''C'', img 3), (''B'', img 2)]\<rparr>\<rparr>"

text \<open>
  Files A, B, C opened at index 0, after the thread preloading B has finished.
\<close>

definition after_failed_preload :: MainWindow where
  "after_failed_preload =
     drop_loader (opened [''A'', ''B'', ''C''] 0)
       \<lparr>thread_request_id = 2, thread_path = ''B'', thread_role = ''preload''\<rparr>"

text \<open>
  Files A, B, C opened at index 1, after the thread preloading C has finished; and
  the same files after the preload of C has arrived with bitmap 3.
\<close>

definition c_preload_ended :: MainWindow where
  "c_preload_ended =
     drop_loader (opened [''A'', ''B'', ''C''] 1)
       \<lparr>thread_request_id = 3, thread_path = ''C'', thread_role = ''preload''\<rparr>"

definition c_cached :: MainWindow where
  "c_cached =
     (opened [''A'', ''B'', ''C''] 1)\<lparr>cache := \<lparr>capacity = 15, items = [(''C'', img 3)]\<rparr>\<rparr>"

text \<open>
  An \<open>abspath\<close> that keeps rooted paths and puts the others under \<open>/cwd\<close>, and a
  file system with one readable folder \<open>/d\<close>.
\<close>

definition example_abspath :: "string \<Rightarrow> string" where
  "example_abspath p = (if take 1 p = ''/'' then p else ''/cwd/'' @ p)"

definition example_entries :: "dir_entry list" where
  "example_entries =
     [\<lparr>entry_name = ''b.PNG'', entry_path = ''/d/b.PNG'', entry_is_file = Inr True\<rparr>,
      \<lparr>entry_name = ''notes.txt'', entry_path = ''/d/notes.txt'', entry_is_file = Inr True\<rparr>,
      \<lparr>entry_name = ''sub.jpg'', entry_path = ''/d/sub.jpg'', entry_is_file = Inr False\<rparr>,
      \<lparr>entry_name = ''.jpg'', entry_path = ''/d/.jpg'', entry_is_file = Inr True\<rparr>,
      \<lparr>entry_name = ''a.jpg'', entry_path = ''/d/a.jpg'', entry_is_file = Inr True\<rparr>]"

definition example_scandir :: "string \<Rightarrow> py_error + dir_entry list" where
  "example_scandir folder = (if folder = ''/d'' then Inr example_entries else Inl OSError)"


section \<open>Verified properties\<close>

subsection \<open>ImageCache: bounded size and least-recently-used order\<close>

lemma od_keys_pop: "od_keys (snd (od_pop m k)) = filter (\<lambda>x. x \<noteq> k) (od_keys m)"
  by (induction m) (auto simp: od_keys_def od_pop_def)

lemma od_set_fresh: "k \<notin> set (od_keys m) \<Longrightarrow> od_set m k v = m @ [(k, v)]"
  by (simp add: od_set_def)

lemma od_pop_set: "od_set (snd (od_pop m k)) k v = snd (od_pop m k) @ [(k, v)]"
  by (rule od_set_fresh) (simp add: od_keys_pop)

lemma od_pop_absent: "k \<notin> set (od_keys m) \<Longrightarrow> snd (od_pop m k) = m"
  by (induction m) (auto simp: od_keys_def od_pop_def)

lemma map_of_keys: "(map_of m k = None) = (k \<notin> set (od_keys m))"
  by (simp add: od_keys_def map_of_eq_None_iff)

lemma cache_get_hit:
  assumes "path \<in> set (od_keys (items c))"
  shows "\<exists>item. map_of (items c) path = Some item \<and>
           cache_get c path = (Some item, c\<lparr>items := snd (od_pop (items c) path) @ [(path, item)]\<rparr>)"
proof -
  from assms obtain item where h: "map_of (items c) path = Some item"
    using map_of_keys [of "items c" path] by auto
  have "cache_get c path = (Some item, c\<lparr>items := od_set (snd (od_pop (items c) path)) path item\<rparr>)"
    using h by (simp add: cache_get_def od_pop_def)
  then show ?thesis using h by (simp add: od_pop_set)
qed

lemma cache_get_miss: "path \<notin> set (od_keys (items c)) \<Longrightarrow> cache_get c path = (None, c)"
  using map_of_keys [of "items c" path] by (simp add: cache_get_def od_pop_def)

lemma evict_drop: "0 \<le> cap \<Longrightarrow> evict m cap = Inr (drop (length m - nat cap) m)"
proof (induction m)
  case Nil then show ?case by simp
next
  case (Cons kv m)
  show ?case
  proof (cases "int (length (kv # m)) > cap")
    case True
    then have "nat cap \<le> length m" using Cons.prems by simp
    then have "length (kv # m) - nat cap = Suc (length m - nat cap)" by (simp add: Suc_diff_le)
    then show ?thesis using True Cons by simp
  next
    case False
    then have "length (kv # m) - nat cap = 0" by simp
    then show ?thesis using False by simp
  qed
qed

lemma cache_put_items:
  assumes "0 \<le> capacity c"
  shows "cache_put c path item =
     Inr (c\<lparr>items := drop (Suc (length (snd (od_pop (items c) path))) - nat (capacity c))
                        (snd (od_pop (items c) path) @ [(path, item)])\<rparr>)"
proof -
  have m1: "(if path \<in> set (od_keys (items c)) then snd (od_pop (items c) path) else items c)
        = snd (od_pop (items c) path)"
    by (simp add: od_pop_absent)
  show ?thesis
    unfolding cache_put_def m1 Let_def od_pop_set
    by (simp add: evict_drop [OF assms])
qed

lemma last_touch_le: "last_touch ops k \<le> length ops"
  by (induction ops) auto

lemma last_touch_snoc:
  "last_touch (ops @ [x]) k = (if op_key x = k then Suc (length ops) else last_touch ops k)"
proof (induction ops)
  case Nil then show ?case by simp
next
  case (Cons a ops)
  then show ?case by (simp add: last_touch_le)
qed

lemma run_ops_snoc:
  "run_ops c (ops @ [x]) = (case run_ops c ops of Inl e \<Rightarrow> Inl e | Inr c' \<Rightarrow> apply_op c' x)"
  by (induction ops arbitrary: c) (auto split: sum.splits)

lemma get_keys:
  "od_keys (items (snd (cache_get c p))) =
     (if p \<in> set (od_keys (items c)) then filter (\<lambda>x. x \<noteq> p) (od_keys (items c)) @ [p]
      else od_keys (items c))"
proof (cases "p \<in> set (od_keys (items c))")
  case True
  from cache_get_hit [OF True] obtain item where
    "cache_get c p = (Some item, c\<lparr>items := snd (od_pop (items c) p) @ [(p, item)]\<rparr>)"
    by blast
  then show ?thesis using True od_keys_pop [of "items c" p] by (simp add: od_keys_def)
next
  case False
  then show ?thesis by (simp add: cache_get_miss)
qed

lemma get_capacity: "capacity (snd (cache_get c p)) = capacity c"
  by (cases "p \<in> set (od_keys (items c))") (use cache_get_hit [of p c] in \<open>auto simp: cache_get_miss\<close>)

lemma put_keys:
  assumes "0 \<le> capacity c"
  shows "\<exists>c'. cache_put c p item = Inr c' \<and> capacity c' = capacity c \<and>
           od_keys (items c') =
             drop (Suc (length (filter (\<lambda>x. x \<noteq> p) (od_keys (items c)))) - nat (capacity c))
                  (filter (\<lambda>x. x \<noteq> p) (od_keys (items c)) @ [p])"
proof -
  let ?m = "snd (od_pop (items c) p)"
  have len: "length ?m = length (filter (\<lambda>x. x \<noteq> p) (od_keys (items c)))"
    using od_keys_pop [of "items c" p] by (metis length_map od_keys_def)
  have app: "od_keys (?m @ [(p, item)]) = filter (\<lambda>x. x \<noteq> p) (od_keys (items c)) @ [p]"
    using od_keys_pop [of "items c" p] by (simp add: od_keys_def)
  have "od_keys (drop (Suc (length ?m) - nat (capacity c)) (?m @ [(p, item)])) =
        drop (Suc (length ?m) - nat (capacity c)) (od_keys (?m @ [(p, item)]))"
    by (simp only: od_keys_def drop_map)
  then show ?thesis
    unfolding cache_put_items [OF assms, of p item] app len by simp
qed

lemma sorted_touch_promote:
  assumes s: "sorted_wrt (\<lambda>a b. last_touch ops a < last_touch ops b) ks"
    and k: "op_key x = p"
  shows "sorted_wrt (\<lambda>a b. last_touch (ops @ [x]) a < last_touch (ops @ [x]) b)
           (filter (\<lambda>y. y \<noteq> p) ks @ [p])"
proof -
  let ?f = "filter (\<lambda>y. y \<noteq> p) ks"
  have "sorted_wrt (\<lambda>a b. last_touch ops a < last_touch ops b) ?f"
    using s by (rule sorted_wrt_filter)
  then have a: "sorted_wrt (\<lambda>a b. last_touch (ops @ [x]) a < last_touch (ops @ [x]) b) ?f"
    by (rule sorted_wrt_mono_rel [rotated]) (auto simp: last_touch_snoc k)
  have b: "\<forall>y \<in> set ?f. last_touch (ops @ [x]) y < last_touch (ops @ [x]) p"
    using last_touch_le by (auto simp: last_touch_snoc k less_Suc_eq_le)
  show ?thesis using a b by (simp add: sorted_wrt_append)
qed

lemma sorted_touch_miss:
  assumes s: "sorted_wrt (\<lambda>a b. last_touch ops a < last_touch ops b) ks"
    and k: "op_key x \<notin> set ks"
  shows "sorted_wrt (\<lambda>a b. last_touch (ops @ [x]) a < last_touch (ops @ [x]) b) ks"
  using s by (rule sorted_wrt_mono_rel [rotated]) (use k in \<open>auto simp: last_touch_snoc\<close>)

lemma sorted_wrt_drop_any: "sorted_wrt P xs \<Longrightarrow> sorted_wrt P (drop n xs)"
  by (metis append_take_drop_id sorted_wrt_append)

lemma length_filter_absent: "p \<notin> set ks \<Longrightarrow> filter (\<lambda>x. x \<noteq> p) ks = ks"
  by (induction ks) auto

lemma length_filter_neq:
  "distinct ks \<Longrightarrow> p \<in> set ks \<Longrightarrow> Suc (length (filter (\<lambda>x. x \<noteq> p) ks)) = length ks"
  by (induction ks) (auto simp: length_filter_absent)

lemma lru_inv_get:
  assumes "lru_inv ops c"
  shows "lru_inv (ops @ [Get p]) (snd (cache_get c p))"
proof (cases "p \<in> set (od_keys (items c))")
  case True
  have l: "length (items (snd (cache_get c p))) = length (od_keys (items (snd (cache_get c p))))"
    by (simp add: od_keys_def)
  have d: "distinct (od_keys (items c))" using assms by (simp add: lru_inv_def)
  have "length (filter (\<lambda>x. x \<noteq> p) (od_keys (items c)) @ [p]) = length (od_keys (items c))"
    using length_filter_neq [OF d True] by simp
  then have "length (items (snd (cache_get c p))) = length (items c)"
    unfolding l get_keys using True by (simp add: od_keys_def)
  moreover have "distinct (od_keys (items (snd (cache_get c p))))"
    unfolding get_keys using True d by simp
  moreover have "sorted_wrt (\<lambda>a b. last_touch (ops @ [Get p]) a < last_touch (ops @ [Get p]) b)
      (od_keys (items (snd (cache_get c p))))"
    unfolding get_keys using True assms sorted_touch_promote [of ops "od_keys (items c)" "Get p" p]
    by (simp add: lru_inv_def)
  ultimately show ?thesis using assms by (simp add: lru_inv_def get_capacity)
next
  case False
  then show ?thesis
    using assms sorted_touch_miss [of ops "od_keys (items c)" "Get p"]
    by (simp add: lru_inv_def cache_get_miss)
qed

lemma lru_inv_put:
  assumes "lru_inv ops c"
  shows "\<exists>c'. cache_put c p item = Inr c' \<and> lru_inv (ops @ [Put p item]) c'"
proof -
  let ?ks = "od_keys (items c)"
  let ?f = "filter (\<lambda>x. x \<noteq> p) ?ks"
  let ?n = "Suc (length ?f) - nat (capacity c)"
  have cap: "1 \<le> capacity c" "0 \<le> capacity c" using assms by (simp_all add: lru_inv_def)
  from put_keys [OF cap(2), of p item] obtain c' where
    c': "cache_put c p item = Inr c'" "capacity c' = capacity c"
        "od_keys (items c') = drop ?n (?f @ [p])"
    by blast
  have d: "distinct ?ks" using assms by (simp add: lru_inv_def)
  have "length (od_keys (items c')) = Suc (length ?f) - ?n" by (simp add: c'(3))
  then have "int (length (od_keys (items c'))) \<le> capacity c" using cap by linarith
  then have l: "int (length (items c')) \<le> capacity c'" by (simp add: od_keys_def c'(2))
  have "distinct (?f @ [p])" using d by simp
  then have d': "distinct (od_keys (items c'))" unfolding c'(3) by (rule distinct_drop)
  have "sorted_wrt (\<lambda>a b. last_touch (ops @ [Put p item]) a < last_touch (ops @ [Put p item]) b) (?f @ [p])"
    using assms sorted_touch_promote [of ops ?ks "Put p item" p] by (simp add: lru_inv_def)
  then have s': "sorted_wrt (\<lambda>a b. last_touch (ops @ [Put p item]) a < last_touch (ops @ [Put p item]) b)
      (od_keys (items c'))"
    unfolding c'(3) by (rule sorted_wrt_drop_any)
  show ?thesis using c'(1,2) cap l d' s' by (auto simp: lru_inv_def)
qed

lemma lru_inv_init: "lru_inv [] (ImageCache_init C)"
  by (simp add: lru_inv_def ImageCache_init_def od_keys_def)

lemma ImageCache_init_capacity: "capacity (ImageCache_init C) = max 1 C"
  by (simp add: ImageCache_init_def)

lemma put_capacity: "cache_put c p item = Inr c' \<Longrightarrow> capacity c' = capacity c"
  by (auto simp: cache_put_def Let_def split: sum.splits)

lemma run_ops_inv:
  "\<exists>c. run_ops (ImageCache_init C) ops = Inr c \<and> lru_inv ops c \<and> capacity c = max 1 C"
proof (induction ops rule: rev_induct)
  case Nil
  show ?case by (simp add: lru_inv_init ImageCache_init_capacity)
next
  case (snoc x ops)
  then obtain c where c: "run_ops (ImageCache_init C) ops = Inr c" "lru_inv ops c" "capacity c = max 1 C"
    by blast
  show ?case
  proof (cases x)
    case (Put p item)
    from lru_inv_put [OF c(2), of p item] obtain c' where
      "cache_put c p item = Inr c'" "lru_inv (ops @ [Put p item]) c'" by blast
    then show ?thesis using c Put put_capacity [of c p item c'] by (simp add: run_ops_snoc)
  next
    case (Get p)
    then show ?thesis using c lru_inv_get [OF c(2), of p] by (simp add: run_ops_snoc get_capacity)
  qed
qed

lemma get_hit_contents:
  assumes d: "distinct (od_keys (items c))" and p: "p \<in> set (od_keys (items c))"
  shows "fst (cache_get c p) = map_of (items c) p \<and> fst (cache_get c p) \<noteq> None \<and>
         set (items (snd (cache_get c p))) = set (items c)"
proof -
  from cache_get_hit [OF p] obtain item where
    h: "map_of (items c) p = Some item"
       "cache_get c p = (Some item, c\<lparr>items := snd (od_pop (items c) p) @ [(p, item)]\<rparr>)"
    by blast
  have mem: "(p, item) \<in> set (items c)" using h(1) by (rule map_of_SomeD)
  have d': "distinct (map fst (items c))" using d by (simp add: od_keys_def)
  have uniq: "v = item" if "(p, v) \<in> set (items c)" for v
    using map_of_is_SomeI [OF d' that] h(1) by simp
  have "set (snd (od_pop (items c) p) @ [(p, item)]) = set (items c)"
  proof (rule set_eqI)
    fix kv :: "string \<times> CachedImage"
    show "kv \<in> set (snd (od_pop (items c) p) @ [(p, item)]) \<longleftrightarrow> kv \<in> set (items c)"
    proof (cases "fst kv = p")
      case True
      then have "kv \<in> set (items c) \<longleftrightarrow> kv = (p, item)"
        using mem uniq [of "snd kv"] by (cases kv) auto
      then show ?thesis using True by (auto simp: od_pop_def)
    next
      case False
      then show ?thesis by (auto simp: od_pop_def)
    qed
  qed
  then show ?thesis using h by simp
qed

lemma put_evicts_lru:
  assumes inv: "lru_inv ops c"
  shows "\<exists>c'. cache_put c p item = Inr c' \<and> int (length (items c')) \<le> capacity c' \<and>
           map_of (items c') p = Some item \<and> last (od_keys (items c')) = p \<and>
           (\<forall>k \<in> set (od_keys (items c)). k \<notin> set (od_keys (items c')) \<longrightarrow>
              k \<noteq> p \<and>
              (\<forall>k' \<in> set (od_keys (items c)) \<union> {p}. k' \<noteq> k \<longrightarrow>
                 k' \<in> set (od_keys (items c')) \<and>
                 last_touch (ops @ [Put p item]) k < last_touch (ops @ [Put p item]) k'))"
proof -
  let ?ks = "od_keys (items c)"
  let ?f = "filter (\<lambda>x. x \<noteq> p) ?ks"
  let ?m = "snd (od_pop (items c) p)"
  let ?n = "Suc (length ?f) - nat (capacity c)"
  let ?lt = "last_touch (ops @ [Put p item])"
  have cap: "1 \<le> capacity c" "0 \<le> capacity c" "int (length ?ks) \<le> capacity c"
    using inv by (simp_all add: lru_inv_def od_keys_def)
  from lru_inv_put [OF inv, of p item] obtain c' where
    c': "cache_put c p item = Inr c'" "lru_inv (ops @ [Put p item]) c'" by blast
  from put_keys [OF cap(2), of p item] c'(1) have
    keys: "od_keys (items c') = drop ?n (?f @ [p])" by auto
  have lenf: "length ?f \<le> length ?ks" by simp
  then have n1: "?n \<le> 1" using cap(3) by linarith
  have lenm: "length ?m = length ?f"
    using od_keys_pop [of "items c" p] by (metis length_map od_keys_def)
  have its: "items c' = drop ?n ?m @ [(p, item)]"
  proof -
    have "?n \<le> length ?m" using n1 cap lenm by linarith
    then show ?thesis using cache_put_items [OF cap(2), of p item] c'(1) lenm by simp
  qed
  have "p \<notin> set (od_keys ?m)" by (simp add: od_keys_pop)
  then have "p \<notin> fst ` set (drop ?n ?m)"
    using set_drop_subset [of ?n ?m] by (auto simp: od_keys_def)
  then have "map_of (drop ?n ?m) p = None" by (simp add: map_of_eq_None_iff)
  then have mp: "map_of (items c') p = Some item" unfolding its by (simp add: map_add_def)
  have lst: "last (od_keys (items c')) = p" unfolding its by (simp add: od_keys_def)
  have srt: "sorted_wrt (\<lambda>a b. ?lt a < ?lt b) (?f @ [p])"
    using inv sorted_touch_promote [of ops ?ks "Put p item" p] by (simp add: lru_inv_def)
  have ev: "k \<noteq> p \<and> (\<forall>k' \<in> set ?ks \<union> {p}. k' \<noteq> k \<longrightarrow>
                 k' \<in> set (od_keys (items c')) \<and> ?lt k < ?lt k')"
    if k: "k \<in> set ?ks" "k \<notin> set (od_keys (items c'))" for k
  proof (cases "?n = 0")
    case True
    then have "set (od_keys (items c')) = set ?f \<union> {p}" by (simp add: keys)
    then show ?thesis using k by auto
  next
    case False
    then have n: "?n = 1" using n1 by linarith
    then have "?f \<noteq> []" using cap(1) by auto
    then obtain a f' where f: "?f = a # f'" by (cases ?f) auto
    have keys': "od_keys (items c') = f' @ [p]" using keys n f by simp
    have kp: "k \<noteq> p" using k(2) keys' by auto
    then have "k \<in> set ?f" using k(1) by simp
    then have ka: "k = a" using k(2) keys' f by auto
    have "k' \<in> set (od_keys (items c')) \<and> ?lt k < ?lt k'"
      if "k' \<in> set ?ks \<union> {p}" "k' \<noteq> k" for k'
    proof -
      have "k' \<in> set ?f \<union> {p}" using that(1) by auto
      then have "k' \<in> set (f' @ [p])" using that(2) ka f by auto
      moreover have "\<forall>y \<in> set (f' @ [p]). ?lt a < ?lt y"
        using srt f by simp
      ultimately show ?thesis using keys' ka by auto
    qed
    then show ?thesis using kp by blast
  qed
  have l: "int (length (items c')) \<le> capacity c'" using c'(2) by (simp add: lru_inv_def)
  show ?thesis
    by (rule exI [of _ c']) (intro conjI c'(1) l mp lst ballI impI ev; assumption)
qed

text \<open>
  Claim C1. Start from \<open>ImageCache(C)\<close> and run any finite sequence \<open>ops\<close> of
  \<open>put\<close> and \<open>get\<close> calls. No call raises, and the resulting cache \<open>c\<close> has
  capacity \<open>max 1 C\<close>, holds at most that many entries, has distinct keys, and lists
  its keys in strictly increasing order of their last touch in \<open>ops\<close> (oldest first).
  A \<open>get\<close> on a present key returns its entry, keeps the set of entries and moves the
  key to the most-recently-used end. A further \<open>put\<close> never raises, stays within the
  capacity, stores the entry at the most-recently-used end, and every key it removes is
  different from the key just put, is the only key removed, and was touched strictly
  earlier than every other member (the key just put included).
\<close>

theorem C1_lru_cache:
  "\<exists>c. run_ops (ImageCache_init C) ops = Inr c \<and>
       capacity c = max 1 C \<and> int (length (items c)) \<le> capacity c \<and>
       distinct (od_keys (items c)) \<and>
       sorted_wrt (\<lambda>a b. last_touch ops a < last_touch ops b) (od_keys (items c)) \<and>
       (\<forall>p \<in> set (od_keys (items c)).
          fst (cache_get c p) = map_of (items c) p \<and> fst (cache_get c p) \<noteq> None \<and>
          set (items (snd (cache_get c p))) = set (items c) \<and>
          od_keys (items (snd (cache_get c p))) = filter (\<lambda>k. k \<noteq> p) (od_keys (items c)) @ [p]) \<and>
       (\<forall>p item. \<exists>c'. cache_put c p item = Inr c' \<and> int (length (items c')) \<le> capacity c' \<and>
           map_of (items c') p = Some item \<and> last (od_keys (items c')) = p \<and>
           (\<forall>k \<in> set (od_keys (items c)). k \<notin> set (od_keys (items c')) \<longrightarrow>
              k \<noteq> p \<and>
              (\<forall>k' \<in> set (od_keys (items c)) \<union> {p}. k' \<noteq> k \<longrightarrow>
                 k' \<in> set (od_keys (items c')) \<and>
                 last_touch (ops @ [Put p item]) k < last_touch (ops @ [Put p item]) k')))"
proof -
  from run_ops_inv [of C ops] obtain c where
    c: "run_ops (ImageCache_init C) ops = Inr c" "lru_inv ops c" "capacity c = max 1 C" by blast
  have d: "distinct (od_keys (items c))" using c(2) by (simp add: lru_inv_def)
  have g: "\<forall>p \<in> set (od_keys (items c)).
          fst (cache_get c p) = map_of (items c) p \<and> fst (cache_get c p) \<noteq> None \<and>
          set (items (snd (cache_get c p))) = set (items c) \<and>
          od_keys (items (snd (cache_get c p))) = filter (\<lambda>k. k \<noteq> p) (od_keys (items c)) @ [p]"
  proof
    fix p assume p: "p \<in> set (od_keys (items c))"
    have k: "od_keys (items (snd (cache_get c p))) = filter (\<lambda>k. k \<noteq> p) (od_keys (items c)) @ [p]"
      using p by (simp add: get_keys)
    show "fst (cache_get c p) = map_of (items c) p \<and> fst (cache_get c p) \<noteq> None \<and>
          set (items (snd (cache_get c p))) = set (items c) \<and>
          od_keys (items (snd (cache_get c p))) = filter (\<lambda>k. k \<noteq> p) (od_keys (items c)) @ [p]"
      using get_hit_contents [OF d p] k by blast
  qed
  have l: "int (length (items c)) \<le> capacity c" using c(2) by (simp add: lru_inv_def)
  have s: "sorted_wrt (\<lambda>a b. last_touch ops a < last_touch ops b) (od_keys (items c))"
    using c(2) by (simp add: lru_inv_def)
  note p = put_evicts_lru [OF c(2)]
  show ?thesis
    by (rule exI [of _ c]) (intro conjI c(1) c(3) l d s g allI p)
qed

text \<open>
  An instance with capacity 2: after \<open>put a\<close>, \<open>put b\<close>, \<open>get a\<close> the order is
  \<open>b, a\<close>, and \<open>put c\<close> removes \<open>b\<close>, whose last touch is older than that of \<open>a\<close>.
\<close>

theorem C1_lru_cache_witness:
  "run_ops (ImageCache_init 2) [Put ''a'' (img 1), Put ''b'' (img 2), Get ''a'']
     = Inr \<lparr>capacity = 2, items = [(''b'', img 2), (''a'', img 1)]\<rparr> \<and>
   cache_put \<lparr>capacity = 2, items = [(''b'', img 2), (''a'', img 1)]\<rparr> ''c'' (img 3)
     = Inr \<lparr>capacity = 2, items = [(''a'', img 1), (''c'', img 3)]\<rparr> \<and>
   ''b'' \<in> set (od_keys [(''b'', img 2), (''a'', img 1)]) \<and>
   ''b'' \<notin> set (od_keys [(''a'', img 1), (''c'', img 3)]) \<and>
   ''a'' \<in> set (od_keys [(''b'', img 2), (''a'', img 1)]) \<union> {''c''} \<and> ''a'' \<noteq> ''b'' \<and>
   last_touch [Put ''a'' (img 1), Put ''b'' (img 2), Get ''a'', Put ''c'' (img 3)] ''b''
     < last_touch [Put ''a'' (img 1), Put ''b'' (img 2), Get ''a'', Put ''c'' (img 3)] ''a''"
proof -
  let ?ops = "[Put ''a'' (img 1), Put ''b'' (img 2), Get ''a'']"
  let ?c = "\<lparr>capacity = 2, items = [(''b'', img 2), (''a'', img 1)]\<rparr>"
  let ?c' = "\<lparr>capacity = 2, items = [(''a'', img 1), (''c'', img 3)]\<rparr>"
  have r: "run_ops (ImageCache_init 2) ?ops = Inr ?c"
    by (simp add: ImageCache_init_def cache_put_def cache_get_def od_pop_def od_set_def od_keys_def)
  have p: "cache_put ?c ''c'' (img 3) = Inr ?c'"
    by (simp add: cache_put_def od_pop_def od_set_def od_keys_def)
  have m: "''b'' \<in> set (od_keys (items ?c))" "''b'' \<notin> set (od_keys (items ?c'))"
    "''a'' \<in> set (od_keys (items ?c)) \<union> {''c''}" "''a'' \<noteq> ''b''"
    by (simp_all add: od_keys_def)
  from C1_lru_cache [of 2 ?ops] r p m
  have "last_touch (?ops @ [Put ''c'' (img 3)]) ''b'' < last_touch (?ops @ [Put ''c'' (img 3)]) ''a''"
    by (metis Inl_Inr_False Inr_inject)
  then show ?thesis using r p m by simp
qed

subsection \<open>Window handlers\<close>

lemma update_status_frame [simp]:
  "image_files (update_status s) = image_files s"
  "current_index (update_status s) = current_index s"
  "cache (update_status s) = cache s"
  "inflight_loads (update_status s) = inflight_loads s"
  "loaders (update_status s) = loaders s"
  "started (update_status s) = started s"
  "thumbnail_rows (update_status s) = thumbnail_rows s"
  "thumb_preview (update_status s) = thumb_preview s"
  "viewer_item (update_status s) = viewer_item s"
  "request_id (update_status s) = request_id s"
  by (simp_all add: update_status_def)

lemma display_frame [simp]:
  "image_files (display s p cached) = image_files s"
  "current_index (display s p cached) = current_index s"
  "cache (display s p cached) = cache s"
  "inflight_loads (display s p cached) = inflight_loads s"
  "loaders (display s p cached) = loaders s"
  "started (display s p cached) = started s"
  "thumbnail_rows (display s p cached) = thumbnail_rows s"
  "thumb_preview (display s p cached) = thumb_preview s"
  "request_id (display s p cached) = request_id s"
  "viewer_item (display s p cached) = Some (qimage cached)"
  by (simp_all add: display_def viewer_set_image_def Let_def)

lemma sync_frame [simp]:
  "image_files (sync_thumb_selection s) = image_files s"
  "current_index (sync_thumb_selection s) = current_index s"
  "cache (sync_thumb_selection s) = cache s"
  "inflight_loads (sync_thumb_selection s) = inflight_loads s"
  "loaders (sync_thumb_selection s) = loaders s"
  "started (sync_thumb_selection s) = started s"
  "viewer_item (sync_thumb_selection s) = viewer_item s"
  "request_id (sync_thumb_selection s) = request_id s"
  by (simp_all add: sync_thumb_selection_def)

lemma request_load_frame [simp]:
  "image_files (snd (request_load s p r)) = image_files s"
  "current_index (snd (request_load s p r)) = current_index s"
  "cache (snd (request_load s p r)) = cache s"
  "viewer_item (snd (request_load s p r)) = viewer_item s"
  "thumbnail_rows (snd (request_load s p r)) = thumbnail_rows s"
  "thumb_preview (snd (request_load s p r)) = thumb_preview s"
  by (simp_all add: request_load_def Let_def)

lemma preload_step_frame [simp]:
  "image_files (preload_step s off) = image_files s"
  "current_index (preload_step s off) = current_index s"
  "viewer_item (preload_step s off) = viewer_item s"
  "thumbnail_rows (preload_step s off) = thumbnail_rows s"
  by (simp_all add: preload_step_def Let_def split: prod.splits)

lemma preload_neighbors_frame [simp]:
  "image_files (preload_neighbors s) = image_files s"
  "current_index (preload_neighbors s) = current_index s"
  "viewer_item (preload_neighbors s) = viewer_item s"
  "thumbnail_rows (preload_neighbors s) = thumbnail_rows s"
  by (simp_all add: preload_neighbors_def)

lemma load_current_frame [simp]:
  "image_files (load_current s) = image_files s"
  "current_index (load_current s) = current_index s"
  by (simp_all add: load_current_def Let_def viewer_set_image_def split: prod.splits option.splits)

text \<open>
  Claim C5. A scan result whose token differs from the current scan token leaves the
  whole window state unchanged: the file list, the current index, the thumbnail
  previews, the cache and every other field are as before.
\<close>

theorem C5_stale_scan_dropped:
  "tok \<noteq> scan_token s \<Longrightarrow> on_scanned s tok folder payload = s"
  by (simp add: on_scanned_def)

text \<open>
  After two calls of \<open>_scan_folder\<close> the current token is 2, and the result of the
  first scan, tagged 1, is dropped.
\<close>

theorem C5_stale_scan_dropped_witness:
  "scan_token two_scans = 2 \<and> (1::int) \<noteq> scan_token two_scans \<and>
   on_scanned two_scans 1 ''d1'' \<lparr>payload_files = Some [''d1/a.jpg''], payload_index = Some 0\<rparr>
     = two_scans"
proof -
  have t: "scan_token two_scans = 2"
    by (simp add: two_scans_def scan_folder_def MainWindow_init_def Let_def)
  then have n: "(1::int) \<noteq> scan_token two_scans" by simp
  show ?thesis using t n C5_stale_scan_dropped [OF n] by simp
qed

lemma next_image_step:
  "image_files s \<noteq> [] \<Longrightarrow>
     current_index (next_image s) = (current_index s + 1) mod int (length (image_files s)) \<and>
     image_files (next_image s) = image_files s"
  by (simp add: next_image_def)

lemma prev_image_step:
  "image_files s \<noteq> [] \<Longrightarrow>
     current_index (prev_image s) = (current_index s - 1) mod int (length (image_files s)) \<and>
     image_files (prev_image s) = image_files s"
  by (simp add: prev_image_def)

lemma next_image_iterate:
  assumes "image_files s \<noteq> []"
  shows "current_index ((next_image ^^ Suc k) s) =
           (current_index s + 1 + int k) mod int (length (image_files s)) \<and>
         image_files ((next_image ^^ Suc k) s) = image_files s"
proof (induction k)
  case 0
  show ?case using next_image_step [OF assms] by simp
next
  case (Suc k)
  let ?t = "(next_image ^^ Suc k) s"
  have ne: "image_files ?t \<noteq> []" using Suc assms by simp
  have "current_index (next_image ?t) = (current_index ?t + 1) mod int (length (image_files ?t))"
    using next_image_step [OF ne] by simp
  also have "\<dots> = ((current_index s + 1 + int k) mod int (length (image_files s)) + 1)
                     mod int (length (image_files s))"
    using Suc by simp
  also have "\<dots> = (current_index s + 1 + int (Suc k)) mod int (length (image_files s))"
    by (simp add: mod_add_left_eq add.assoc)
  finally have "current_index (next_image ?t) =
      (current_index s + 1 + int (Suc k)) mod int (length (image_files s))" .
  moreover have "image_files (next_image ?t) = image_files s"
    using next_image_step [OF ne] Suc by simp
  ultimately show ?case by simp
qed

text \<open>
  Claim C7. For a file list of length \<open>N \<ge> 2\<close> and a current index within the list,
  \<open>next_image\<close> and \<open>prev_image\<close> set the index to \<open>(index + 1) mod N\<close> and
  \<open>(index - 1) mod N\<close>; \<open>N\<close> calls of \<open>next_image\<close> return to the start index
  with the same file list; and \<open>prev_image\<close> from index 0 gives \<open>N - 1\<close>.
\<close>

theorem C7_navigation_wraparound:
  assumes "length (image_files s) = N" and "2 \<le> N"
    and "0 \<le> current_index s" and "current_index s < int N"
  shows "current_index (next_image s) = (current_index s + 1) mod int (length (image_files s)) \<and>
         current_index (prev_image s) = (current_index s - 1) mod int (length (image_files s)) \<and>
         current_index ((next_image ^^ N) s) = current_index s \<and>
         image_files ((next_image ^^ N) s) = image_files s \<and>
         (current_index s = 0 \<longrightarrow> current_index (prev_image s) = int N - 1)"
proof -
  have ne: "image_files s \<noteq> []" using assms(1,2) by auto
  obtain k where k: "N = Suc k" using assms(2) by (cases N) auto
  have "current_index s + 1 + int k = current_index s + int N" using k by simp
  moreover have "(current_index s + int N) mod int N = current_index s"
    using assms(3,4) by simp
  ultimately have "(current_index s + 1 + int k) mod int N = current_index s"
    by (simp only:)
  then have it: "current_index ((next_image ^^ N) s) = current_index s"
       "image_files ((next_image ^^ N) s) = image_files s"
    using next_image_iterate [OF ne, of k] k assms(1) by simp_all
  have "(-1) mod int N = int N - 1" using assms(2)
    by (simp add: zmod_minus1)
  then have pr: "current_index s = 0 \<longrightarrow> current_index (prev_image s) = int N - 1"
    using prev_image_step [OF ne] assms(1) by simp
  show ?thesis using next_image_step [OF ne] prev_image_step [OF ne] it pr by simp
qed

lemma request_load_inflight:
  "p \<in> inflight_loads s \<Longrightarrow> request_load s p r = (None, s)"
  by (simp add: request_load_def)

lemma request_load_new:
  "p \<notin> inflight_loads s \<Longrightarrow>
     request_load s p r =
       (Some (request_id s + 1),
        s\<lparr>request_id := request_id s + 1, inflight_loads := insert p (inflight_loads s),
          loaders := loaders s @ [\<lparr>thread_request_id = request_id s + 1, thread_path = p, thread_role = r\<rparr>],
          started := started s @ [\<lparr>thread_request_id = request_id s + 1, thread_path = p, thread_role = r\<rparr>]\<rparr>)"
  by (simp add: request_load_def Let_def)

lemmas window_defs = opened_def on_scanned_def bind_image_files_def scan_folder_def MainWindow_init_def
  FolderScanThread_init_def populate_thumbnails_def start_thumbnail_loader_def
  load_current_def preload_neighbors_def preload_step_def request_load_def
  sync_thumb_selection_def cache_get_def od_pop_def od_set_def od_keys_def
  ImageCache_init_def enumerate_dict_def MetadataPanel_set_data_def meta_keys_def
  dict_get_def basename_def is_sep_def Let_def


lemma opened_abc:
  "opened [''A'', ''B'', ''C''] 1 =
     \<lparr>image_files = [''A'', ''B'', ''C''], current_index = 1,
      cache = \<lparr>capacity = 15, items = []\<rparr>, current_info = [],
      current_meta = [], thumb_preview = [],
      thumb_index = [(''A'', 0), (''B'', 1), (''C'', 2)],
      inflight_loads = {''C'', ''A'', ''B''}, request_id = 3, scan_token = 1,
      thumb_token = 1,
      loaders =
        [\<lparr>thread_request_id = 1, thread_path = ''B'', thread_role = ''main''\<rparr>,
         \<lparr>thread_request_id = 2, thread_path = ''A'', thread_role = ''preload''\<rparr>,
         \<lparr>thread_request_id = 3, thread_path = ''C'', thread_role = ''preload''\<rparr>],
      started =
        [\<lparr>thread_request_id = 1, thread_path = ''B'', thread_role = ''main''\<rparr>,
         \<lparr>thread_request_id = 2, thread_path = ''A'', thread_role = ''preload''\<rparr>,
         \<lparr>thread_request_id = 3, thread_path = ''C'', thread_role = ''preload''\<rparr>],
      scan_thread = Some \<lparr>fs_token = 1, fs_folder = ''dir'', fs_selected = None\<rparr>,
      thumb_thread = Some \<lparr>tl_token = 1, tl_files = [''A'', ''B'', ''C''], tl_files_id = 1\<rparr>,
      viewer_item = None,
      thumbnail_rows = [(''A'', ''A'', None), (''B'', ''B'', None), (''C'', ''C'', None)],
      thumbnail_current_row = 1,
      meta_panel =
        [(''Camera'', ''-''), (''ISO'', ''-''), (''Shutter'', ''-''),
         (''Aperture'', ''-''), (''Focal Length'', ''-''),
         (''Date Taken'', ''-''), (''GPS'', ''-'')],
      status_labels = (''File: -'', ''Resolution: -'', ''Mode: -''),
      status_message = ''Loading image...'', title = TitleInitial,
      info_boxes = 0, image_files_id = 1, next_list_id = 2\<rparr>"
  by (simp add: window_defs)

lemma opened_a:
  "opened [''A''] 0 =
     \<lparr>image_files = [''A''], current_index = 0,
      cache = \<lparr>capacity = 15, items = []\<rparr>, current_info = [],
      current_meta = [], thumb_preview = [],
      thumb_index = [(''A'', 0)],
      inflight_loads = {''A''}, request_id = 1, scan_token = 1,
      thumb_token = 1,
      loaders = [\<lparr>thread_request_id = 1, thread_path = ''A'', thread_role = ''main''\<rparr>],
      started = [\<lparr>thread_request_id = 1, thread_path = ''A'', thread_role = ''main''\<rparr>],
      scan_thread = Some \<lparr>fs_token = 1, fs_folder = ''dir'', fs_selected = None\<rparr>,
      thumb_thread = Some \<lparr>tl_token = 1, tl_files = [''A''], tl_files_id = 1\<rparr>,
      viewer_item = None,
      thumbnail_rows = [(''A'', ''A'', None)],
      thumbnail_current_row = 0,
      meta_panel =
        [(''Camera'', ''-''), (''ISO'', ''-''), (''Shutter'', ''-''),
         (''Aperture'', ''-''), (''Focal Length'', ''-''),
         (''Date Taken'', ''-''), (''GPS'', ''-'')],
      status_labels = (''File: -'', ''Resolution: -'', ''Mode: -''),
      status_message = ''Loading image...'', title = TitleInitial,
      info_boxes = 0, image_files_id = 1, next_list_id = 2\<rparr>"
  by (simp add: window_defs)

lemma py_norm_index_in_range:
  "0 \<le> i \<Longrightarrow> i < int n \<Longrightarrow> py_norm_index n i = Some (nat i)"
  by (simp add: py_norm_index_def)

lemma cur_path_in_range:
  assumes "current_index s < int (length (image_files s))"
  shows "cur_path s =
           Inr (if image_files s \<noteq> [] \<and> 0 \<le> current_index s
                then Some (image_files s ! nat (current_index s)) else None)"
  using assms by (simp add: cur_path_def py_index_def py_norm_index_in_range)

lemma on_loaded_failure:
  assumes "q = None \<or> i = None \<or> m = None"
  shows "on_loaded s rid p q i m r =
           (case cur_path s of
              Inl err \<Rightarrow> Inl err
            | Inr cp \<Rightarrow>
                if Some p = cp
                then skip_corrupted_current (s\<lparr>status_message := ''Failed to load: '' @ basename p\<rparr>)
                else Inr s)"
  using assms by (auto simp: on_loaded_def split: option.splits)

lemma on_loaded_success:
  "on_loaded s rid p (Some q) (Some i) (Some m) r =
     (case cache_put (cache s) p \<lparr>qimage = q, info = i, meta = m\<rparr> of
        Inl err \<Rightarrow> Inl err
      | Inr c \<Rightarrow>
          (case cur_path (s\<lparr>cache := c\<rparr>) of
             Inl err \<Rightarrow> Inl err
           | Inr cp \<Rightarrow>
               if Some p = cp then Inr (display (s\<lparr>cache := c\<rparr>) p \<lparr>qimage = q, info = i, meta = m\<rparr>)
               else Inr (s\<lparr>cache := c\<rparr>)))"
  by (simp add: on_loaded_def Let_def split: sum.splits)

lemma viewer_clear_view_frame [simp]:
  "image_files (viewer_clear_view s) = image_files s"
  "current_index (viewer_clear_view s) = current_index s"
  "viewer_item (viewer_clear_view s) = None"
  "cache (viewer_clear_view s) = cache s"
  "status_message (viewer_clear_view s) = status_message s"
  by (simp_all add: viewer_clear_view_def update_status_def)

text \<open>
  Claim C2, as the code has it. With the file list \<open>[A]\<close> and current index 0, a decode
  failure for \<open>A\<close> does not raise; it shows the failure message and clears the
  viewer, and the file list stays \<open>[A]\<close> with current index 0 (the branch
  \<open>len(self.image_files) == 1\<close> of \<open>_skip_corrupted_current\<close> returns before the
  removal).
\<close>

theorem C2_single_file_failure_keeps_list:
  assumes "image_files s = [A]" and "current_index s = 0"
    and "q = None \<or> i = None \<or> m = None"
  shows "\<exists>s'. on_loaded s rid A q i m r = Inr s' \<and>
           s' = viewer_clear_view (s\<lparr>status_message := ''Failed to load: '' @ basename A\<rparr>) \<and>
           image_files s' = [A] \<and> current_index s' = 0 \<and> viewer_item s' = None \<and>
           cache s' = cache s \<and> status_message s' = ''Failed to load: '' @ basename A"
proof -
  have "cur_path s = Inr (Some A)"
    using assms(1,2) by (simp add: cur_path_in_range)
  then have "on_loaded s rid A q i m r =
      skip_corrupted_current (s\<lparr>status_message := ''Failed to load: '' @ basename A\<rparr>)"
    using assms(3) by (simp add: on_loaded_failure)
  also have "\<dots> = Inr (viewer_clear_view (s\<lparr>status_message := ''Failed to load: '' @ basename A\<rparr>))"
    using assms(1) by (simp add: skip_corrupted_current_def)
  finally show ?thesis using assms(1,2) by simp
qed

text \<open>One file opened, then its decode fails.\<close>

theorem C2_single_file_failure_keeps_list_witness:
  "image_files (opened [''A''] 0) = [''A''] \<and> current_index (opened [''A''] 0) = 0 \<and>
   map_sum id image_files (on_loaded (opened [''A''] 0) 1 ''A'' None None None ''main'') = Inr [''A''] \<and>
   map_sum id viewer_item (on_loaded (opened [''A''] 0) 1 ''A'' None None None ''main'') = Inr None"
proof -
  have h: "image_files (opened [''A''] 0) = [''A'']" "current_index (opened [''A''] 0) = 0"
    by (simp_all add: opened_a)
  from C2_single_file_failure_keeps_list [OF h, of None None None 1 "''main''"]
  show ?thesis using h by auto
qed

text \<open>The file list after that failure is still \<open>[A]\<close>, not the empty list.\<close>

theorem C2_counterexample:
  "map_sum id image_files (on_loaded (opened [''A''] 0) 1 ''A'' None None None ''main'') = Inr [''A''] \<and>
   map_sum id image_files (on_loaded (opened [''A''] 0) 1 ''A'' None None None ''main'') \<noteq> Inr []"
  by (simp add: opened_a on_loaded_def cur_path_def py_index_def py_norm_index_def
      skip_corrupted_current_def)

lemma populate_thumbnails_frame [simp]:
  "image_files (populate_thumbnails s) = image_files s"
  "current_index (populate_thumbnails s) = current_index s"
  "cache (populate_thumbnails s) = cache s"
  "inflight_loads (populate_thumbnails s) = inflight_loads s"
  "started (populate_thumbnails s) = started s"
  "viewer_item (populate_thumbnails s) = viewer_item s"
  by (simp_all add: populate_thumbnails_def Let_def)

lemma start_thumbnail_loader_frame [simp]:
  "image_files (start_thumbnail_loader s) = image_files s"
  "current_index (start_thumbnail_loader s) = current_index s"
  "cache (start_thumbnail_loader s) = cache s"
  by (simp_all add: start_thumbnail_loader_def Let_def)

lemma opened_nav:
  assumes "files \<noteq> []"
  shows "image_files (opened files idx) = files"
    and "current_index (opened files idx) = max 0 (min idx (int (length files) - 1))"
  using assms
  by (simp_all add: opened_def on_scanned_def bind_image_files_def scan_folder_def
      MainWindow_init_def Let_def)

text \<open>Three files opened at index 0: one step forward, a full cycle, one step back.\<close>

theorem C7_navigation_wraparound_witness:
  "length (image_files (opened [''A'', ''B'', ''C''] 0)) = 3 \<and> (2::nat) \<le> 3 \<and>
   current_index (opened [''A'', ''B'', ''C''] 0) = 0 \<and>
   current_index (next_image (opened [''A'', ''B'', ''C''] 0)) = 1 \<and>
   current_index ((next_image ^^ 3) (opened [''A'', ''B'', ''C''] 0)) = 0 \<and>
   current_index (prev_image (opened [''A'', ''B'', ''C''] 0)) = 2"
proof -
  let ?s = "opened [''A'', ''B'', ''C''] 0"
  have f: "image_files ?s = [''A'', ''B'', ''C'']" "current_index ?s = 0"
    by (simp_all add: opened_nav)
  have h: "length (image_files ?s) = 3" "(2::nat) \<le> 3" "0 \<le> current_index ?s"
    "current_index ?s < int 3"
    by (simp_all add: f)
  from C7_navigation_wraparound [OF h] show ?thesis using f by simp
qed

lemma cache_put_total:
  assumes "0 \<le> capacity c"
  shows "\<exists>c'. cache_put c p item = Inr c'"
  using cache_put_items [OF assms] by blast

text \<open>
  Claim C6. Let the current index be below the length of the file list and the cache
  capacity be non-negative. A successful result for \<open>p\<close> is stored in the cache and
  never changes the file list or the current index; it is displayed exactly when \<open>p\<close>
  equals the path at the current index at that moment, and otherwise the viewer keeps
  its image and only the cache changes. A failed result for a path other than the one
  at the current index leaves the whole state unchanged.
\<close>

theorem C6_loaded_result_staleness:
  assumes "current_index s < int (length (image_files s))" and "0 \<le> capacity (cache s)"
  shows "(\<exists>s' c. on_loaded s rid p (Some q) (Some i) (Some m) r = Inr s' \<and>
            cache_put (cache s) p \<lparr>qimage = q, info = i, meta = m\<rparr> = Inr c \<and>
            image_files s' = image_files s \<and> current_index s' = current_index s \<and>
            (if image_files s \<noteq> [] \<and> 0 \<le> current_index s \<and>
                image_files s ! nat (current_index s) = p
             then s' = display (s\<lparr>cache := c\<rparr>) p \<lparr>qimage = q, info = i, meta = m\<rparr> \<and>
                  viewer_item s' = Some q
             else s' = s\<lparr>cache := c\<rparr> \<and> viewer_item s' = viewer_item s)) \<and>
         ((qo = None \<or> io = None \<or> mo = None) \<and>
          \<not> (image_files s \<noteq> [] \<and> 0 \<le> current_index s \<and>
             image_files s ! nat (current_index s) = p) \<longrightarrow>
          on_loaded s rid p qo io mo r = Inr s)"
proof -
  from cache_put_total [OF assms(2)] obtain c where
    c: "cache_put (cache s) p \<lparr>qimage = q, info = i, meta = m\<rparr> = Inr c" by blast
  have cp: "cur_path (s\<lparr>cache := c\<rparr>) = cur_path s" by (simp add: cur_path_def)
  have a: "\<exists>s' c. on_loaded s rid p (Some q) (Some i) (Some m) r = Inr s' \<and>
            cache_put (cache s) p \<lparr>qimage = q, info = i, meta = m\<rparr> = Inr c \<and>
            image_files s' = image_files s \<and> current_index s' = current_index s \<and>
            (if image_files s \<noteq> [] \<and> 0 \<le> current_index s \<and>
                image_files s ! nat (current_index s) = p
             then s' = display (s\<lparr>cache := c\<rparr>) p \<lparr>qimage = q, info = i, meta = m\<rparr> \<and>
                  viewer_item s' = Some q
             else s' = s\<lparr>cache := c\<rparr> \<and> viewer_item s' = viewer_item s)"
    using c cp cur_path_in_range [OF assms(1)] by (auto simp: on_loaded_success)
  have b: "(qo = None \<or> io = None \<or> mo = None) \<and>
          \<not> (image_files s \<noteq> [] \<and> 0 \<le> current_index s \<and>
             image_files s ! nat (current_index s) = p) \<longrightarrow>
          on_loaded s rid p qo io mo r = Inr s"
    using cur_path_in_range [OF assms(1)] by (auto simp: on_loaded_failure)
  show ?thesis using a b by (rule conjI)
qed

text \<open>
  Files A, B, C opened at index 1: a result for B is displayed, a result for A is
  only cached, and a failure for A changes nothing.
\<close>

theorem C6_loaded_result_staleness_witness:
  "current_index (opened [''A'', ''B'', ''C''] 1) < int (length (image_files (opened [''A'', ''B'', ''C''] 1))) \<and>
   0 \<le> capacity (cache (opened [''A'', ''B'', ''C''] 1)) \<and>
   image_files (opened [''A'', ''B'', ''C''] 1) ! nat (current_index (opened [''A'', ''B'', ''C''] 1)) = ''B'' \<and>
   map_sum id viewer_item
     (on_loaded (opened [''A'', ''B'', ''C''] 1) 1 ''B'' (Some 7) (Some []) (Some []) ''main'') = Inr (Some 7) \<and>
   map_sum id viewer_item
     (on_loaded (opened [''A'', ''B'', ''C''] 1) 2 ''A'' (Some 8) (Some []) (Some []) ''preload'') = Inr None \<and>
   on_loaded (opened [''A'', ''B'', ''C''] 1) 2 ''A'' None None None ''preload''
     = Inr (opened [''A'', ''B'', ''C''] 1)"
proof -
  let ?s = "opened [''A'', ''B'', ''C''] 1"
  have h: "current_index ?s < int (length (image_files ?s))" "0 \<le> capacity (cache ?s)"
    by (simp_all add: opened_abc)
  have f: "image_files ?s = [''A'', ''B'', ''C'']" "current_index ?s = 1" "viewer_item ?s = None"
    by (simp_all add: opened_abc)
  have b: "map_sum id viewer_item (on_loaded ?s 1 ''B'' (Some 7) (Some []) (Some []) ''main'') = Inr (Some 7)"
    using C6_loaded_result_staleness [OF h, of 1 "''B''" 7 "[]" "[]" "''main''" None None None] f
    by auto
  have a: "map_sum id viewer_item (on_loaded ?s 2 ''A'' (Some 8) (Some []) (Some []) ''preload'') = Inr None"
    "on_loaded ?s 2 ''A'' None None None ''preload'' = Inr ?s"
    using C6_loaded_result_staleness [OF h, of 2 "''A''" 8 "[]" "[]" "''preload''" None None None] f
    by auto
  show ?thesis using h f a b by simp
qed

subsection \<open>Preloading of neighbours\<close>

lemma cache_get_hit_iff: "fst (cache_get c p) = None \<longleftrightarrow> p \<notin> set (od_keys (items c))"
  using cache_get_hit [of p c] cache_get_miss [of p c] by (cases "p \<in> set (od_keys (items c))") auto

lemma get_keys_promote: "od_keys (items (snd (cache_get c p))) = promote_key (od_keys (items c)) p"
  by (simp add: get_keys promote_key_def)

lemma set_promote_key [simp]: "set (promote_key ks p) = set ks"
  by (auto simp: promote_key_def)

lemma preload_step_out:
  "\<not> (0 \<le> current_index s + off \<and> current_index s + off < int (length (image_files s)))
     \<Longrightarrow> preload_step s off = s"
  by (auto simp: preload_step_def Let_def)

lemma preload_step_hit:
  assumes "0 \<le> current_index s + off" "current_index s + off < int (length (image_files s))"
    and "image_files s ! nat (current_index s + off) \<in> set (od_keys (items (cache s)))"
  shows "preload_step s off =
           s\<lparr>cache := snd (cache_get (cache s) (image_files s ! nat (current_index s + off)))\<rparr>"
proof -
  let ?p = "image_files s ! nat (current_index s + off)"
  from cache_get_hit [OF assms(3)] obtain item c' where
    g: "cache_get (cache s) ?p = (Some item, c')" by blast
  then have "preload_step s off = s\<lparr>cache := c'\<rparr>"
    using assms(1,2) by (simp add: preload_step_def Let_def)
  then show ?thesis by (simp add: g)
qed

lemma preload_step_miss:
  assumes "0 \<le> current_index s + off" "current_index s + off < int (length (image_files s))"
    and "image_files s ! nat (current_index s + off) \<notin> set (od_keys (items (cache s)))"
  shows "preload_step s off =
           snd (request_load s (image_files s ! nat (current_index s + off)) ''preload'')"
  using assms by (simp add: preload_step_def Let_def cache_get_miss)

lemma preload_neighbors_steps:
  "image_files s \<noteq> [] \<Longrightarrow> preload_neighbors s = preload_step (preload_step s (-1)) 1"
  by (simp add: preload_neighbors_def)

lemma preload_step_keys:
  "od_keys (items (cache (preload_step s off))) =
     foldl promote_key (od_keys (items (cache s)))
       (map (\<lambda>j. image_files s ! nat j)
         (filter (\<lambda>j. 0 \<le> j \<and> j < int (length (image_files s))) [current_index s + off]))"
proof (cases "0 \<le> current_index s + off \<and> current_index s + off < int (length (image_files s))")
  case False
  then show ?thesis using preload_step_out [of s off] by auto
next
  case True
  show ?thesis
  proof (cases "image_files s ! nat (current_index s + off) \<in> set (od_keys (items (cache s)))")
    case hit: True
    then show ?thesis using True by (simp add: preload_step_hit get_keys_promote)
  next
    case miss: False
    then show ?thesis using True by (simp add: preload_step_miss promote_key_def)
  qed
qed

lemma neighbor_paths_split:
  "neighbor_paths s =
     map (\<lambda>j. image_files s ! nat j)
       (filter (\<lambda>j. 0 \<le> j \<and> j < int (length (image_files s))) [current_index s + (-1)]) @
     map (\<lambda>j. image_files s ! nat j)
       (filter (\<lambda>j. 0 \<le> j \<and> j < int (length (image_files s))) [current_index s + 1])"
  by (simp add: neighbor_paths_def)

lemma preload_neighbors_keys:
  assumes "image_files s \<noteq> []"
  shows "od_keys (items (cache (preload_neighbors s))) =
           foldl promote_key (od_keys (items (cache s))) (neighbor_paths s)"
  unfolding preload_neighbors_steps [OF assms] neighbor_paths_split foldl_append
  by (simp only: preload_step_keys [of "preload_step s (-1)" 1] preload_step_keys [of s "-1"]
      preload_step_frame)

text \<open>
  Claim C10. \<open>_preload_neighbors\<close> tests membership with \<open>cache.get\<close>. In a round of
  its loop whose index is in range and whose path \<open>p\<close> is in the cache, the only change
  to the window is that \<open>p\<close> moves to the most-recently-used end of the cache: no
  thread is started, nothing is put in flight and the viewer keeps its image. For a
  non-empty file list the call is the round for \<open>-1\<close> followed by the round for \<open>1\<close>,
  so the key order of the cache afterwards is the old order with each cached in-range
  neighbour promoted in turn.
\<close>

theorem C10_preload_promotes_cached_neighbors:
  "(0 \<le> current_index s + off \<and> current_index s + off < int (length (image_files s)) \<and>
    image_files s ! nat (current_index s + off) \<in> set (od_keys (items (cache s))) \<longrightarrow>
      preload_step s off =
        s\<lparr>cache := snd (cache_get (cache s) (image_files s ! nat (current_index s + off)))\<rparr> \<and>
      od_keys (items (cache (preload_step s off))) =
        filter (\<lambda>k. k \<noteq> image_files s ! nat (current_index s + off)) (od_keys (items (cache s)))
          @ [image_files s ! nat (current_index s + off)] \<and>
      started (preload_step s off) = started s \<and>
      inflight_loads (preload_step s off) = inflight_loads s \<and>
      viewer_item (preload_step s off) = viewer_item s) \<and>
   (image_files s \<noteq> [] \<longrightarrow>
      preload_neighbors s = preload_step (preload_step s (-1)) 1 \<and>
      od_keys (items (cache (preload_neighbors s))) =
        foldl promote_key (od_keys (items (cache s))) (neighbor_paths s) \<and>
      viewer_item (preload_neighbors s) = viewer_item s)"
proof (intro conjI impI)
  assume a: "0 \<le> current_index s + off \<and> current_index s + off < int (length (image_files s)) \<and>
    image_files s ! nat (current_index s + off) \<in> set (od_keys (items (cache s)))"
  then have h: "preload_step s off =
        s\<lparr>cache := snd (cache_get (cache s) (image_files s ! nat (current_index s + off)))\<rparr>"
    by (simp add: preload_step_hit)
  show "preload_step s off =
        s\<lparr>cache := snd (cache_get (cache s) (image_files s ! nat (current_index s + off)))\<rparr>"
    by (rule h)
  show "od_keys (items (cache (preload_step s off))) =
        filter (\<lambda>k. k \<noteq> image_files s ! nat (current_index s + off)) (od_keys (items (cache s)))
          @ [image_files s ! nat (current_index s + off)]"
    using a by (simp add: h get_keys)
  show "started (preload_step s off) = started s" by (simp add: h)
  show "inflight_loads (preload_step s off) = inflight_loads s" by (simp add: h)
  show "viewer_item (preload_step s off) = viewer_item s" by simp
next
  assume ne: "image_files s \<noteq> []"
  show "preload_neighbors s = preload_step (preload_step s (-1)) 1"
    by (rule preload_neighbors_steps [OF ne])
  show "od_keys (items (cache (preload_neighbors s))) =
        foldl promote_key (od_keys (items (cache s))) (neighbor_paths s)"
    by (rule preload_neighbors_keys [OF ne])
  show "viewer_item (preload_neighbors s) = viewer_item s" by simp
qed

text \<open>
  With A, C, B cached in that order and B current, the call reorders the cache to
  B, A, C and starts no thread.
\<close>

theorem C10_preload_promotes_cached_neighbors_witness:
  "image_files warm_window \<noteq> [] \<and>
   0 \<le> current_index warm_window + (-1) \<and>
   current_index warm_window + (-1) < int (length (image_files warm_window)) \<and>
   image_files warm_window ! nat (current_index warm_window + (-1)) = ''A'' \<and>
   ''A'' \<in> set (od_keys (items (cache warm_window))) \<and>
   neighbor_paths warm_window = [''A'', ''C''] \<and>
   od_keys (items (cache warm_window)) = [''A'', ''C'', ''B''] \<and>
   od_keys (items (cache (preload_step warm_window (-1)))) = [''C'', ''B'', ''A''] \<and>
   od_keys (items (cache (preload_neighbors warm_window))) = [''B'', ''A'', ''C''] \<and>
   started (preload_step warm_window (-1)) = started warm_window"
proof -
  have f: "image_files warm_window = [''A'', ''B'', ''C'']" "current_index warm_window = 1"
    "od_keys (items (cache warm_window)) = [''A'', ''C'', ''B'']"
    by (simp_all add: warm_window_def opened_abc od_keys_def)
  have n: "neighbor_paths warm_window = [''A'', ''C'']"
    by (simp add: neighbor_paths_def f)
  have h: "0 \<le> current_index warm_window + (-1) \<and>
     current_index warm_window + (-1) < int (length (image_files warm_window)) \<and>
     image_files warm_window ! nat (current_index warm_window + (-1))
       \<in> set (od_keys (items (cache warm_window)))"
    "image_files warm_window \<noteq> []"
    by (simp_all add: f)
  note c10 = C10_preload_promotes_cached_neighbors [of warm_window "-1"]
  have k1: "od_keys (items (cache (preload_step warm_window (-1)))) =
        filter (\<lambda>k. k \<noteq> image_files warm_window ! nat (current_index warm_window + (-1)))
          (od_keys (items (cache warm_window)))
          @ [image_files warm_window ! nat (current_index warm_window + (-1))]"
    using c10 h(1) by blast
  have k2: "started (preload_step warm_window (-1)) = started warm_window"
    using c10 h(1) by blast
  have k3: "od_keys (items (cache (preload_neighbors warm_window))) =
        foldl promote_key (od_keys (items (cache warm_window))) (neighbor_paths warm_window)"
    using c10 h(2) by blast
  have "od_keys (items (cache (preload_step warm_window (-1)))) = [''C'', ''B'', ''A'']"
    unfolding k1 by (simp add: f)
  moreover have "od_keys (items (cache (preload_neighbors warm_window))) = [''B'', ''A'', ''C'']"
    unfolding k3 by (simp add: f n promote_key_def)
  ultimately show ?thesis using h f n k2 by simp
qed

lemma preload_step_keyset:
  "set (od_keys (items (cache (preload_step s off)))) = set (od_keys (items (cache s)))"
proof -
  have "set (foldl promote_key ks ps) = set ks" for ks ps
    by (induction ps arbitrary: ks) simp_all
  then show ?thesis by (simp only: preload_step_keys)
qed

lemma preload_step_started:
  "started (preload_step s off) =
     started s @
       (if 0 \<le> current_index s + off \<and> current_index s + off < int (length (image_files s)) \<and>
           image_files s ! nat (current_index s + off) \<notin> set (od_keys (items (cache s))) \<and>
           image_files s ! nat (current_index s + off) \<notin> inflight_loads s
        then [\<lparr>thread_request_id = request_id s + 1,
               thread_path = image_files s ! nat (current_index s + off),
               thread_role = ''preload''\<rparr>]
        else [])"
proof (cases "0 \<le> current_index s + off \<and> current_index s + off < int (length (image_files s))")
  case False
  then show ?thesis using preload_step_out [of s off] by auto
next
  case True
  show ?thesis
  proof (cases "image_files s ! nat (current_index s + off) \<in> set (od_keys (items (cache s)))")
    case hit: True
    then show ?thesis using True by (simp add: preload_step_hit)
  next
    case miss: False
    then show ?thesis using True
      by (cases "image_files s ! nat (current_index s + off) \<in> inflight_loads s")
        (simp_all add: preload_step_miss request_load_inflight request_load_new)
  qed
qed

lemma preload_step_inflight:
  "inflight_loads (preload_step s off) =
     inflight_loads s \<union>
       (if 0 \<le> current_index s + off \<and> current_index s + off < int (length (image_files s)) \<and>
           image_files s ! nat (current_index s + off) \<notin> set (od_keys (items (cache s)))
        then {image_files s ! nat (current_index s + off)} else {})"
proof (cases "0 \<le> current_index s + off \<and> current_index s + off < int (length (image_files s))")
  case False
  then show ?thesis using preload_step_out [of s off] by auto
next
  case True
  show ?thesis
  proof (cases "image_files s ! nat (current_index s + off) \<in> set (od_keys (items (cache s)))")
    case hit: True
    then show ?thesis using True by (simp add: preload_step_hit)
  next
    case miss: False
    then show ?thesis using True
      by (cases "image_files s ! nat (current_index s + off) \<in> inflight_loads s")
        (auto simp: preload_step_miss request_load_inflight request_load_new)
  qed
qed

lemma neighbor_paths_set:
  "set (neighbor_paths s) =
     (if 0 \<le> current_index s + (-1) \<and> current_index s + (-1) < int (length (image_files s))
      then {image_files s ! nat (current_index s + (-1))} else {}) \<union>
     (if 0 \<le> current_index s + 1 \<and> current_index s + 1 < int (length (image_files s))
      then {image_files s ! nat (current_index s + 1)} else {})"
  by (auto simp: neighbor_paths_def)

lemma load_current_ends_with_preload:
  assumes "0 \<le> current_index s" "current_index s < int (length (image_files s))"
  shows "\<exists>s2. load_current s = preload_neighbors s2 \<and>
           image_files s2 = image_files s \<and> current_index s2 = current_index s"
proof -
  obtain hit c where g: "cache_get (cache s) (image_files s ! nat (current_index s)) = (hit, c)"
    by (cases "cache_get (cache s) (image_files s ! nat (current_index s))") auto
  show ?thesis
  proof (cases hit)
    case None
    show ?thesis
      using assms g None
      by (cases "map_of (thumb_preview s) (image_files s ! nat (current_index s))")
        (simp_all add: load_current_def Let_def viewer_set_image_def, (rule exI, rule conjI, rule refl, simp)+)
  next
    case (Some cached)
    show ?thesis
      using assms g Some
      by (simp add: load_current_def Let_def) (rule exI, rule conjI, rule refl, simp)
  qed
qed

text \<open>
  Claim C8, as the code has it. \<open>load_current\<close>, when the current index lies within
  the file list, ends with \<open>_preload_neighbors\<close> on the same file list and index. For
  a non-empty file list, \<open>_preload_neighbors\<close> considers the paths at \<open>current_index - 1\<close> and \<open>current_index + 1\<close> that lie
  within the list, without wrapping around its ends. The threads it starts all have
  role \<open>preload\<close>, pairwise distinct paths, and a path that is one of those
  neighbours, is not in the cache and was not in flight; every such neighbour gets a
  thread; and afterwards exactly the neighbours that are not cached have been added to
  the paths in flight.
\<close>

theorem C8_preload_in_range_neighbors:
  assumes "image_files s \<noteq> []"
  shows "(\<exists>ts. started (preload_neighbors s) = started s @ ts \<and>
           (\<forall>t \<in> set ts. thread_role t = ''preload'' \<and>
              thread_path t \<in> set (neighbor_paths s) \<and>
              thread_path t \<notin> set (od_keys (items (cache s))) \<and>
              thread_path t \<notin> inflight_loads s) \<and>
           distinct (map thread_path ts) \<and>
           (\<forall>p \<in> set (neighbor_paths s).
              p \<notin> set (od_keys (items (cache s))) \<and> p \<notin> inflight_loads s \<longrightarrow>
              p \<in> thread_path ` set ts) \<and>
           inflight_loads (preload_neighbors s) =
             inflight_loads s \<union> {p \<in> set (neighbor_paths s). p \<notin> set (od_keys (items (cache s)))}) \<and>
         (0 \<le> current_index s \<and> current_index s < int (length (image_files s)) \<longrightarrow>
            (\<exists>s2. load_current s = preload_neighbors s2 \<and>
               image_files s2 = image_files s \<and> current_index s2 = current_index s))"
proof -
  let ?s1 = "preload_step s (-1)"
  let ?ts1 = "(if 0 \<le> current_index s + (-1) \<and> current_index s + (-1) < int (length (image_files s)) \<and>
           image_files s ! nat (current_index s + (-1)) \<notin> set (od_keys (items (cache s))) \<and>
           image_files s ! nat (current_index s + (-1)) \<notin> inflight_loads s
        then [\<lparr>thread_request_id = request_id s + 1,
               thread_path = image_files s ! nat (current_index s + (-1)),
               thread_role = ''preload''\<rparr>]
        else [])"
  let ?ts2 = "(if 0 \<le> current_index s + 1 \<and> current_index s + 1 < int (length (image_files s)) \<and>
           image_files s ! nat (current_index s + 1) \<notin> set (od_keys (items (cache s))) \<and>
           image_files s ! nat (current_index s + 1) \<notin> inflight_loads ?s1
        then [\<lparr>thread_request_id = request_id ?s1 + 1,
               thread_path = image_files s ! nat (current_index s + 1),
               thread_role = ''preload''\<rparr>]
        else [])"
  have st: "started (preload_neighbors s) = started s @ (?ts1 @ ?ts2)"
    unfolding preload_neighbors_steps [OF assms]
    by (simp only: preload_step_started [of ?s1 1] preload_step_started [of s "-1"]
        preload_step_frame preload_step_keyset append_assoc)
  have inf1: "inflight_loads ?s1 =
     inflight_loads s \<union>
       (if 0 \<le> current_index s + (-1) \<and> current_index s + (-1) < int (length (image_files s)) \<and>
           image_files s ! nat (current_index s + (-1)) \<notin> set (od_keys (items (cache s)))
        then {image_files s ! nat (current_index s + (-1))} else {})"
    by (rule preload_step_inflight)
  have inf: "inflight_loads (preload_neighbors s) =
     inflight_loads ?s1 \<union>
       (if 0 \<le> current_index s + 1 \<and> current_index s + 1 < int (length (image_files s)) \<and>
           image_files s ! nat (current_index s + 1) \<notin> set (od_keys (items (cache s)))
        then {image_files s ! nat (current_index s + 1)} else {})"
    unfolding preload_neighbors_steps [OF assms]
    by (simp only: preload_step_inflight [of ?s1 1] preload_step_frame preload_step_keyset)
  have a: "\<forall>t \<in> set (?ts1 @ ?ts2). thread_role t = ''preload'' \<and>
              thread_path t \<in> set (neighbor_paths s) \<and>
              thread_path t \<notin> set (od_keys (items (cache s))) \<and>
              thread_path t \<notin> inflight_loads s"
    unfolding neighbor_paths_set inf1 by (auto split: if_splits)
  have b: "distinct (map thread_path (?ts1 @ ?ts2))"
    unfolding inf1 by (auto split: if_splits)
  have c: "\<forall>p \<in> set (neighbor_paths s).
              p \<notin> set (od_keys (items (cache s))) \<and> p \<notin> inflight_loads s \<longrightarrow>
              p \<in> thread_path ` set (?ts1 @ ?ts2)"
    unfolding neighbor_paths_set inf1
    by (cases "image_files s ! nat (current_index s + 1) = image_files s ! nat (current_index s + (-1))")
      (auto simp: image_iff split: if_splits)
  have d: "inflight_loads (preload_neighbors s) =
             inflight_loads s \<union> {p \<in> set (neighbor_paths s). p \<notin> set (od_keys (items (cache s)))}"
    unfolding inf inf1 neighbor_paths_set by (auto split: if_splits)
  have main: "\<exists>ts. started (preload_neighbors s) = started s @ ts \<and>
           (\<forall>t \<in> set ts. thread_role t = ''preload'' \<and>
              thread_path t \<in> set (neighbor_paths s) \<and>
              thread_path t \<notin> set (od_keys (items (cache s))) \<and>
              thread_path t \<notin> inflight_loads s) \<and>
           distinct (map thread_path ts) \<and>
           (\<forall>p \<in> set (neighbor_paths s).
              p \<notin> set (od_keys (items (cache s))) \<and> p \<notin> inflight_loads s \<longrightarrow>
              p \<in> thread_path ` set ts) \<and>
           inflight_loads (preload_neighbors s) =
             inflight_loads s \<union> {p \<in> set (neighbor_paths s). p \<notin> set (od_keys (items (cache s)))}"
    using st a b c d by blast
  have lc: "0 \<le> current_index s \<and> current_index s < int (length (image_files s)) \<longrightarrow>
            (\<exists>s2. load_current s = preload_neighbors s2 \<and>
               image_files s2 = image_files s \<and> current_index s2 = current_index s)"
    using load_current_ends_with_preload [of s] by blast
  show ?thesis using main lc by (rule conjI)
qed


lemma opened_abc0_state:
  "opened [''A'', ''B'', ''C''] 0 =
     \<lparr>image_files = [''A'', ''B'', ''C''], current_index = 0,
      cache = \<lparr>capacity = 15, items = []\<rparr>, current_info = [],
      current_meta = [], thumb_preview = [],
      thumb_index = [(''A'', 0), (''B'', 1), (''C'', 2)],
      inflight_loads = {''B'', ''A''}, request_id = 2, scan_token = 1,
      thumb_token = 1,
      loaders =
        [\<lparr>thread_request_id = 1, thread_path = ''A'', thread_role = ''main''\<rparr>,
         \<lparr>thread_request_id = 2, thread_path = ''B'', thread_role = ''preload''\<rparr>],
      started =
        [\<lparr>thread_request_id = 1, thread_path = ''A'', thread_role = ''main''\<rparr>,
         \<lparr>thread_request_id = 2, thread_path = ''B'', thread_role = ''preload''\<rparr>],
      scan_thread = Some \<lparr>fs_token = 1, fs_folder = ''dir'', fs_selected = None\<rparr>,
      thumb_thread = Some \<lparr>tl_token = 1, tl_files = [''A'', ''B'', ''C''], tl_files_id = 1\<rparr>,
      viewer_item = None,
      thumbnail_rows = [(''A'', ''A'', None), (''B'', ''B'', None), (''C'', ''C'', None)],
      thumbnail_current_row = 0,
      meta_panel =
        [(''Camera'', ''-''), (''ISO'', ''-''), (''Shutter'', ''-''),
         (''Aperture'', ''-''), (''Focal Length'', ''-''),
         (''Date Taken'', ''-''), (''GPS'', ''-'')],
      status_labels = (''File: -'', ''Resolution: -'', ''Mode: -''),
      status_message = ''Loading image...'', title = TitleInitial,
      info_boxes = 0, image_files_id = 1, next_list_id = 2\<rparr>"
  by (simp add: window_defs)

lemma after_failed_preload_fields:
  "image_files after_failed_preload = [''A'', ''B'', ''C'']"
  "current_index after_failed_preload = 0"
  "cache after_failed_preload = \<lparr>capacity = 15, items = []\<rparr>"
  "inflight_loads after_failed_preload = {''A''}"
  "request_id after_failed_preload = 2"
  "started after_failed_preload =
     [\<lparr>thread_request_id = 1, thread_path = ''A'', thread_role = ''main''\<rparr>,
      \<lparr>thread_request_id = 2, thread_path = ''B'', thread_role = ''preload''\<rparr>]"
  by (auto simp: after_failed_preload_def drop_loader_def Let_def opened_abc0_state)

text \<open>
  Files A, B, C opened at index 0, after the preload of B has ended: the only
  neighbour in range is B, and a thread with role \<open>preload\<close> is started for it.
\<close>

theorem C8_preload_in_range_neighbors_witness:
  "image_files after_failed_preload \<noteq> [] \<and>
   0 \<le> current_index after_failed_preload \<and>
   current_index after_failed_preload < int (length (image_files after_failed_preload)) \<and>
   neighbor_paths after_failed_preload = [''B''] \<and>
   ''B'' \<notin> set (od_keys (items (cache after_failed_preload))) \<and>
   ''B'' \<notin> inflight_loads after_failed_preload \<and>
   started (preload_neighbors after_failed_preload) =
     started after_failed_preload @
       [\<lparr>thread_request_id = 3, thread_path = ''B'', thread_role = ''preload''\<rparr>] \<and>
   inflight_loads (preload_neighbors after_failed_preload) = {''A'', ''B''}"
proof -
  let ?s = after_failed_preload
  note f = after_failed_preload_fields
  have ne: "image_files ?s \<noteq> []" by (simp add: f)
  have s1: "preload_step ?s (-1) = ?s" by (rule preload_step_out) (simp add: f)
  have n: "neighbor_paths ?s = [''B'']" by (simp add: neighbor_paths_def f)
  have k: "''B'' \<notin> set (od_keys (items (cache ?s)))" "''B'' \<notin> inflight_loads ?s"
    by (simp_all add: f od_keys_def)
  from C8_preload_in_range_neighbors [OF ne] obtain ts where
    ts: "started (preload_neighbors ?s) = started ?s @ ts"
      "\<forall>p \<in> set (neighbor_paths ?s).
         p \<notin> set (od_keys (items (cache ?s))) \<and> p \<notin> inflight_loads ?s \<longrightarrow>
         p \<in> thread_path ` set ts"
      "inflight_loads (preload_neighbors ?s) =
         inflight_loads ?s \<union> {p \<in> set (neighbor_paths ?s). p \<notin> set (od_keys (items (cache ?s)))}"
    by blast
  have i: "inflight_loads (preload_neighbors ?s) = {''A'', ''B''}"
    unfolding ts(3) n using k by (auto simp: f)
  have st: "started (preload_neighbors ?s) =
     started ?s @ [\<lparr>thread_request_id = 3, thread_path = ''B'', thread_role = ''preload''\<rparr>]"
    unfolding preload_neighbors_steps [OF ne] s1
    by (simp add: preload_step_started f od_keys_def)
  have r: "0 \<le> current_index ?s" "current_index ?s < int (length (image_files ?s))"
    by (simp_all add: f)
  show ?thesis using ne r n k i st by simp
qed

text \<open>
  In the same state the neighbour of index 0 under wraparound is C, at index
  \<open>(0 - 1) mod 3\<close>. C is neither cached nor in flight, and no thread is started for
  it.
\<close>

theorem C8_counterexample:
  "image_files after_failed_preload \<noteq> [] \<and>
   image_files after_failed_preload !
     nat ((current_index after_failed_preload - 1) mod int (length (image_files after_failed_preload)))
     = ''C'' \<and>
   ''C'' \<notin> set (od_keys (items (cache after_failed_preload))) \<and>
   ''C'' \<notin> inflight_loads after_failed_preload \<and>
   ''C'' \<notin> thread_path ` set (started (preload_neighbors after_failed_preload)) \<and>
   ''C'' \<notin> inflight_loads (preload_neighbors after_failed_preload)"
proof -
  let ?s = after_failed_preload
  note f = after_failed_preload_fields
  have ne: "image_files ?s \<noteq> []" by (simp add: f)
  have s1: "preload_step ?s (-1) = ?s" by (rule preload_step_out) (simp add: f)
  have st: "started (preload_neighbors ?s) =
     started ?s @ [\<lparr>thread_request_id = 3, thread_path = ''B'', thread_role = ''preload''\<rparr>]"
    unfolding preload_neighbors_steps [OF ne] s1
    by (simp add: preload_step_started f od_keys_def)
  have i: "inflight_loads (preload_neighbors ?s) = {''A'', ''B''}"
    unfolding preload_neighbors_steps [OF ne] s1
    by (auto simp: preload_step_inflight f od_keys_def)
  show ?thesis unfolding st i by (simp add: f od_keys_def)
qed

subsection \<open>Skipping a corrupted file\<close>

lemma request_load_frame2 [simp]:
  "status_message (snd (request_load s p r)) = status_message s"
  "current_info (snd (request_load s p r)) = current_info s"
  "current_meta (snd (request_load s p r)) = current_meta s"
  "title (snd (request_load s p r)) = title s"
  "thumb_thread (snd (request_load s p r)) = thumb_thread s"
  "image_files_id (snd (request_load s p r)) = image_files_id s"
  by (simp_all add: request_load_def Let_def)

lemma preload_step_frame2 [simp]:
  "status_message (preload_step s off) = status_message s"
  "current_info (preload_step s off) = current_info s"
  "current_meta (preload_step s off) = current_meta s"
  "title (preload_step s off) = title s"
  "thumb_thread (preload_step s off) = thumb_thread s"
  "image_files_id (preload_step s off) = image_files_id s"
  by (simp_all add: preload_step_def Let_def split: prod.splits)

lemma preload_neighbors_frame2 [simp]:
  "status_message (preload_neighbors s) = status_message s"
  "current_info (preload_neighbors s) = current_info s"
  "current_meta (preload_neighbors s) = current_meta s"
  "title (preload_neighbors s) = title s"
  "thumb_thread (preload_neighbors s) = thumb_thread s"
  "image_files_id (preload_neighbors s) = image_files_id s"
  by (simp_all add: preload_neighbors_def)

lemma sync_frame2 [simp]:
  "status_message (sync_thumb_selection s) = status_message s"
  "current_info (sync_thumb_selection s) = current_info s"
  "current_meta (sync_thumb_selection s) = current_meta s"
  "title (sync_thumb_selection s) = title s"
  "thumb_thread (sync_thumb_selection s) = thumb_thread s"
  "thumbnail_rows (sync_thumb_selection s) = thumbnail_rows s"
  "image_files_id (sync_thumb_selection s) = image_files_id s"
  by (simp_all add: sync_thumb_selection_def)

lemma display_frame2 [simp]:
  "current_info (display s p cached) = info cached"
  "current_meta (display s p cached) = meta cached"
  "title (display s p cached) =
     TitleImage (current_index s + 1) (length (image_files s)) (basename p)"
  "status_message (display s p cached) = status_message s"
  "thumb_thread (display s p cached) = thumb_thread s"
  "image_files_id (display s p cached) = image_files_id s"
  by (simp_all add: display_def viewer_set_image_def update_status_def Let_def)

lemma populate_thumbnails_frame2 [simp]:
  "status_message (populate_thumbnails s) = status_message s"
  "thumb_thread (populate_thumbnails s) = thumb_thread s"
  "thumb_preview (populate_thumbnails s) = thumb_preview s"
  "request_id (populate_thumbnails s) = request_id s"
  "loaders (populate_thumbnails s) = loaders s"
  "image_files_id (populate_thumbnails s) = image_files_id s"
  "thumbnail_rows (populate_thumbnails s) = map (\<lambda>p. (basename p, p, None)) (image_files s)"
  by (simp_all add: populate_thumbnails_def Let_def)

lemma load_current_frame2 [simp]:
  "thumb_thread (load_current s) = thumb_thread s"
  "thumbnail_rows (load_current s) = thumbnail_rows s"
  "image_files_id (load_current s) = image_files_id s"
  by (simp_all add: load_current_def Let_def viewer_set_image_def update_status_def
      split: prod.splits option.splits)

lemma preload_neighbors_started:
  assumes "image_files s \<noteq> []"
  shows "\<exists>ts. started (preload_neighbors s) = started s @ ts \<and>
           (\<forall>t \<in> set ts. thread_role t = ''preload'')"
proof -
  obtain ts1 where 1: "started (preload_step s (-1)) = started s @ ts1"
    "\<forall>t \<in> set ts1. thread_role t = ''preload''"
    using preload_step_started [of s "-1"] by (auto split: if_splits)
  obtain ts2 where 2: "started (preload_step (preload_step s (-1)) 1) = started (preload_step s (-1)) @ ts2"
    "\<forall>t \<in> set ts2. thread_role t = ''preload''"
    using preload_step_started [of "preload_step s (-1)" 1] by (auto split: if_splits)
  show ?thesis
    unfolding preload_neighbors_steps [OF assms] using 1 2
    by (intro exI [of _ "ts1 @ ts2"]) auto
qed

lemma preload_neighbors_inflight_mono:
  "inflight_loads s \<subseteq> inflight_loads (preload_neighbors s)"
proof (cases "image_files s = []")
  case True
  then show ?thesis by (simp add: preload_neighbors_def)
next
  case False
  have "inflight_loads s \<subseteq> inflight_loads (preload_step s (-1))"
    by (subst preload_step_inflight) auto
  moreover have "inflight_loads (preload_step s (-1)) \<subseteq> inflight_loads (preload_step (preload_step s (-1)) 1)"
    by (subst preload_step_inflight) auto
  ultimately show ?thesis unfolding preload_neighbors_steps [OF False] by blast
qed

lemma cache_get_result:
  "cache_get c p =
     (case map_of (items c) p of
        None \<Rightarrow> (None, c)
      | Some item \<Rightarrow> (Some item, snd (cache_get c p)))"
  by (simp add: cache_get_def od_pop_def split: option.splits)

lemma load_current_hit:
  assumes "0 \<le> current_index s" "current_index s < int (length (image_files s))"
    and "map_of (items (cache s)) (image_files s ! nat (current_index s)) = Some item"
  shows "viewer_item (load_current s) = Some (qimage item)"
    and "current_info (load_current s) = info item"
    and "current_meta (load_current s) = meta item"
    and "title (load_current s) =
           TitleImage (current_index s + 1) (length (image_files s))
             (basename (image_files s ! nat (current_index s)))"
    and "status_message (load_current s) = status_message s"
    and "\<exists>ts. started (load_current s) = started s @ ts \<and>
               (\<forall>t \<in> set ts. thread_role t = ''preload'')"
proof -
  let ?p = "image_files s ! nat (current_index s)"
  obtain c where g: "cache_get (cache s) ?p = (Some item, c)"
    using assms(3) by (simp add: cache_get_def od_pop_def)
  have l: "load_current s = preload_neighbors (sync_thumb_selection (display (s\<lparr>cache := c\<rparr>) ?p item))"
    using assms(1,2) g by (simp add: load_current_def Let_def)
  have ne: "image_files (sync_thumb_selection (display (s\<lparr>cache := c\<rparr>) ?p item)) \<noteq> []"
    using assms(1,2) by auto
  show "viewer_item (load_current s) = Some (qimage item)" by (simp add: l)
  show "current_info (load_current s) = info item" by (simp add: l)
  show "current_meta (load_current s) = meta item" by (simp add: l)
  show "title (load_current s) =
           TitleImage (current_index s + 1) (length (image_files s)) (basename ?p)"
    by (simp add: l)
  show "status_message (load_current s) = status_message s" by (simp add: l)
  show "\<exists>ts. started (load_current s) = started s @ ts \<and>
               (\<forall>t \<in> set ts. thread_role t = ''preload'')"
    using preload_neighbors_started [OF ne] by (simp add: l)
qed

lemma load_current_miss:
  assumes "0 \<le> current_index s" "current_index s < int (length (image_files s))"
    and "map_of (items (cache s)) (image_files s ! nat (current_index s)) = None"
  shows "image_files s ! nat (current_index s) \<in> inflight_loads (load_current s)"
    and "status_message (load_current s) = ''Loading image...''"
    and "viewer_item (load_current s) =
           (case map_of (thumb_preview s) (image_files s ! nat (current_index s)) of
              None \<Rightarrow> viewer_item s | Some preview \<Rightarrow> Some preview)"
    and "\<exists>ts. started (load_current s) =
               started s @
               (if image_files s ! nat (current_index s) \<in> inflight_loads s then []
                else [\<lparr>thread_request_id = request_id s + 1,
                       thread_path = image_files s ! nat (current_index s),
                       thread_role = ''main''\<rparr>]) @ ts \<and>
               (\<forall>t \<in> set ts. thread_role t = ''preload'')"
proof -
  let ?p = "image_files s ! nat (current_index s)"
  have g: "cache_get (cache s) ?p = (None, cache s)"
    using assms(3) by (simp add: cache_get_def od_pop_def)
  define s3 where "s3 = (case map_of (thumb_preview s) ?p of
        Some preview \<Rightarrow>
          update_status ((viewer_set_image s preview)
            \<lparr>current_info := [(''filename'', basename ?p), (''resolution'', ''Preview''), (''mode'', ''RGB'')],
             current_meta := [], meta_panel := MetadataPanel_set_data None\<rparr>)
      | None \<Rightarrow> s)"
  have l: "load_current s =
      preload_neighbors (sync_thumb_selection
        ((snd (request_load s3 ?p ''main''))\<lparr>status_message := ''Loading image...''\<rparr>))"
    using assms(1,2) g unfolding s3_def
    by (simp add: load_current_def Let_def split: option.splits)
  have f3: "inflight_loads s3 = inflight_loads s" "started s3 = started s"
    "request_id s3 = request_id s" "image_files s3 = image_files s"
    "viewer_item s3 = (case map_of (thumb_preview s) ?p of
              None \<Rightarrow> viewer_item s | Some preview \<Rightarrow> Some preview)"
    unfolding s3_def by (simp_all add: viewer_set_image_def split: option.splits)
  let ?s5 = "sync_thumb_selection
        ((snd (request_load s3 ?p ''main''))\<lparr>status_message := ''Loading image...''\<rparr>)"
  have in5: "?p \<in> inflight_loads ?s5"
    by (cases "?p \<in> inflight_loads s3") (simp_all add: request_load_inflight request_load_new)
  show "?p \<in> inflight_loads (load_current s)"
    using in5 preload_neighbors_inflight_mono [of ?s5] unfolding l by blast
  show "status_message (load_current s) = ''Loading image...''"
    by (simp add: l sync_thumb_selection_def)
  show "viewer_item (load_current s) =
           (case map_of (thumb_preview s) ?p of None \<Rightarrow> viewer_item s | Some preview \<Rightarrow> Some preview)"
    by (simp add: l f3)
  have st5: "started ?s5 = started s @
               (if ?p \<in> inflight_loads s then []
                else [\<lparr>thread_request_id = request_id s + 1, thread_path = ?p, thread_role = ''main''\<rparr>])"
    using f3 by (cases "?p \<in> inflight_loads s3") (simp_all add: request_load_inflight request_load_new)
  have ne: "image_files ?s5 \<noteq> []" using assms(1,2) f3(4) by auto
  show "\<exists>ts. started (load_current s) =
               started s @
               (if ?p \<in> inflight_loads s then []
                else [\<lparr>thread_request_id = request_id s + 1, thread_path = ?p, thread_role = ''main''\<rparr>]) @ ts \<and>
               (\<forall>t \<in> set ts. thread_role t = ''preload'')"
    using preload_neighbors_started [OF ne] unfolding l st5 by simp
qed

lemma mutate_image_files_frame [simp]:
  "image_files (mutate_image_files s rest) = rest"
  "current_index (mutate_image_files s rest) = current_index s"
  "cache (mutate_image_files s rest) = cache s"
  "inflight_loads (mutate_image_files s rest) = inflight_loads s"
  "started (mutate_image_files s rest) = started s"
  "loaders (mutate_image_files s rest) = loaders s"
  "request_id (mutate_image_files s rest) = request_id s"
  "status_message (mutate_image_files s rest) = status_message s"
  "image_files_id (mutate_image_files s rest) = image_files_id s"
  "thumb_thread (mutate_image_files s rest) =
     map_option (\<lambda>t. if tl_files_id t = image_files_id s then t\<lparr>tl_files := rest\<rparr> else t)
       (thumb_thread s)"
  by (simp_all add: mutate_image_files_def)

lemma skip_corrupted_current_many:
  assumes len: "2 \<le> length (image_files s)"
    and lo: "0 \<le> current_index s" and hi: "current_index s < int (length (image_files s))"
  shows "skip_corrupted_current s =
           Inr (load_current (populate_thumbnails
             ((mutate_image_files s
                 (take (nat (current_index s)) (image_files s) @
                  drop (Suc (nat (current_index s))) (image_files s)))
              \<lparr>status_message :=
                   ''Skipped corrupted file: '' @ basename (image_files s ! nat (current_index s)),
                current_index := min (current_index s) (int (length (image_files s)) - 2)\<rparr>)))"
proof -
  define rest where
    "rest = take (nat (current_index s)) (image_files s) @ drop (Suc (nat (current_index s))) (image_files s)"
  define bad where "bad = image_files s ! nat (current_index s)"
  have pop: "py_pop (image_files s) (current_index s) = Inr (bad, rest)"
    using lo hi by (simp add: py_pop_def py_norm_index_in_range rest_def bad_def)
  have "nat (current_index s) < length (image_files s)" using lo hi by simp
  then have lr: "int (length rest) = int (length (image_files s)) - 1"
    by (simp add: min_def rest_def)
  have ne: "image_files s \<noteq> []" "length (image_files s) \<noteq> 1" using len by auto
  have "skip_corrupted_current s =
          Inr (load_current (populate_thumbnails
             (s\<lparr>image_files := rest,
                thumb_thread :=
                  map_option (\<lambda>t. if tl_files_id t = image_files_id s then t\<lparr>tl_files := rest\<rparr> else t)
                    (thumb_thread s),
                status_message := ''Skipped corrupted file: '' @ basename bad,
                current_index := min (current_index s) (int (length (image_files s)) - 2)\<rparr>)))"
  proof (cases "current_index s \<ge> int (length rest)")
    case True
    then have "min (current_index s) (int (length (image_files s)) - 2) = int (length rest) - 1"
      using lr hi by simp
    then show ?thesis
      using True ne pop by (simp add: skip_corrupted_current_def Let_def mutate_image_files_def)
  next
    case False
    then have "min (current_index s) (int (length (image_files s)) - 2) = current_index s"
      using lr by simp
    then show ?thesis
      using False ne pop by (simp add: skip_corrupted_current_def Let_def mutate_image_files_def)
  qed
  then show ?thesis unfolding mutate_image_files_def rest_def bad_def .
qed

text \<open>
  Claim C3. With at least two files and a current index within the list, a decode
  failure for the path at the current index does not raise. It removes the entry at
  the current position and no other, in place, so that a thumbnail thread holding the
  same list object sees the shortened list; it sets the current index to
  \<open>min(current_index, len(files) - 1)\<close> for the shortened list, which lies within
  it; it rebuilds the thumbnail rows; and it runs \<open>load_current\<close> on the result. That
  reload shows the new current path from the cache when it is cached. Otherwise it
  leaves the new current path in flight with the message \<open>Loading image...\<close>, having
  started one thread with role \<open>main\<close> for it unless it was already in flight; every
  other thread it starts has role \<open>preload\<close>.
\<close>

theorem C3_skip_corrupted_current:
  assumes "2 \<le> length (image_files s)"
    and "0 \<le> current_index s" and "current_index s < int (length (image_files s))"
    and "p = image_files s ! nat (current_index s)"
    and "q = None \<or> i = None \<or> m = None"
  shows "\<exists>s'. on_loaded s rid p q i m r = Inr s' \<and>
           image_files s' = take (nat (current_index s)) (image_files s) @
                              drop (Suc (nat (current_index s))) (image_files s) \<and>
           length (image_files s') = length (image_files s) - 1 \<and>
           current_index s' = min (current_index s) (int (length (image_files s')) - 1) \<and>
           0 \<le> current_index s' \<and> current_index s' < int (length (image_files s')) \<and>
           s' = load_current (populate_thumbnails
                  ((mutate_image_files s
                      (take (nat (current_index s)) (image_files s) @
                       drop (Suc (nat (current_index s))) (image_files s)))
                   \<lparr>status_message := ''Skipped corrupted file: '' @ basename p,
                     current_index := min (current_index s) (int (length (image_files s)) - 2)\<rparr>)) \<and>
           thumb_thread s' =
             map_option (\<lambda>t. if tl_files_id t = image_files_id s
                               then t\<lparr>tl_files := image_files s'\<rparr> else t) (thumb_thread s) \<and>
           thumbnail_rows s' = map (\<lambda>f. (basename f, f, None)) (image_files s') \<and>
           (\<forall>item. map_of (items (cache s)) (image_files s' ! nat (current_index s')) = Some item \<longrightarrow>
              viewer_item s' = Some (qimage item) \<and>
              current_info s' = info item \<and> current_meta s' = meta item \<and>
              title s' = TitleImage (current_index s' + 1) (length (image_files s'))
                           (basename (image_files s' ! nat (current_index s')))) \<and>
           (map_of (items (cache s)) (image_files s' ! nat (current_index s')) = None \<longrightarrow>
              image_files s' ! nat (current_index s') \<in> inflight_loads s' \<and>
              status_message s' = ''Loading image...'' \<and>
              (\<exists>ts. started s' =
                      started s @
                      (if image_files s' ! nat (current_index s') \<in> inflight_loads s then []
                       else [\<lparr>thread_request_id = request_id s + 1,
                              thread_path = image_files s' ! nat (current_index s'),
                              thread_role = ''main''\<rparr>]) @ ts \<and>
                    (\<forall>t \<in> set ts. thread_role t = ''preload'')))"
proof -
  let ?s0 = "s\<lparr>status_message := ''Failed to load: '' @ basename p\<rparr>"
  define rest where
    "rest = take (nat (current_index s)) (image_files s) @ drop (Suc (nat (current_index s))) (image_files s)"
  define mid where
    "mid = populate_thumbnails
             ((mutate_image_files s rest)
              \<lparr>status_message := ''Skipped corrupted file: '' @ basename p,
                current_index := min (current_index s) (int (length (image_files s)) - 2)\<rparr>)"
  have ne: "image_files s \<noteq> []" using assms(1) by auto
  have "cur_path s = Inr (Some p)"
    using assms(2,3,4) ne by (simp add: cur_path_in_range)
  then have a: "on_loaded s rid p q i m r = skip_corrupted_current ?s0"
    using assms(5) by (simp add: on_loaded_failure)
  have "mutate_image_files ?s0 rest =
        (mutate_image_files s rest)\<lparr>status_message := ''Failed to load: '' @ basename p\<rparr>"
    by (simp add: mutate_image_files_def)
  then have b: "skip_corrupted_current ?s0 = Inr (load_current mid)"
    using skip_corrupted_current_many [of ?s0] assms(1,2,3,4) by (simp add: rest_def mid_def)
  have n: "nat (current_index s) < length (image_files s)" using assms(2,3) by simp
  then have l: "length rest = length (image_files s) - 1"
    by (simp add: min_def rest_def)
  have l2: "int (length (image_files s) - 1) - 1 = int (length (image_files s)) - 2"
    using assms(1) by simp
  have fm: "image_files mid = rest"
    "current_index mid = min (current_index s) (int (length (image_files s)) - 2)"
    "cache mid = cache s" "inflight_loads mid = inflight_loads s" "started mid = started s"
    "request_id mid = request_id s"
    "thumb_thread mid =
       map_option (\<lambda>t. if tl_files_id t = image_files_id s then t\<lparr>tl_files := rest\<rparr> else t)
         (thumb_thread s)"
    "thumbnail_rows mid = map (\<lambda>f. (basename f, f, None)) rest"
    by (simp_all add: mid_def)
  have rng: "0 \<le> current_index mid" "current_index mid < int (length (image_files mid))"
    using assms(1,2,3) l by (simp_all add: fm)
  have hit: "viewer_item (load_current mid) = Some (qimage item) \<and>
              current_info (load_current mid) = info item \<and>
              current_meta (load_current mid) = meta item \<and>
              title (load_current mid) =
                TitleImage (current_index mid + 1) (length (image_files mid))
                  (basename (image_files mid ! nat (current_index mid)))"
    if "map_of (items (cache s)) (image_files mid ! nat (current_index mid)) = Some item" for item
    using load_current_hit [OF rng, of item] that by (simp add: fm(3))
  have miss: "image_files mid ! nat (current_index mid) \<in> inflight_loads (load_current mid) \<and>
              status_message (load_current mid) = ''Loading image...'' \<and>
              (\<exists>ts. started (load_current mid) =
                      started s @
                      (if image_files mid ! nat (current_index mid) \<in> inflight_loads s then []
                       else [\<lparr>thread_request_id = request_id s + 1,
                              thread_path = image_files mid ! nat (current_index mid),
                              thread_role = ''main''\<rparr>]) @ ts \<and>
                    (\<forall>t \<in> set ts. thread_role t = ''preload''))"
    if "map_of (items (cache s)) (image_files mid ! nat (current_index mid)) = None"
  proof -
    have c: "map_of (items (cache mid)) (image_files mid ! nat (current_index mid)) = None"
      using that by (simp add: fm(3))
    note m = load_current_miss [OF rng c]
    show ?thesis using m(1) m(2) m(4) [unfolded fm(4,5,6)] by (intro conjI)
  qed
  have idx: "current_index mid = min (current_index s) (int (length rest) - 1)"
    using l l2 by (simp add: fm(2))
  show ?thesis
    unfolding a b
    apply (rule exI [of _ "load_current mid"])
    apply (intro conjI)
    subgoal by (rule refl)
    subgoal by (simp add: fm rest_def)
    subgoal by (simp add: fm l)
    subgoal by (simp add: idx fm(1))
    subgoal using rng by simp
    subgoal using rng by simp
    subgoal by (simp add: mid_def rest_def)
    subgoal by (simp add: fm cong: if_cong)
    subgoal by (simp add: fm)
    subgoal unfolding load_current_frame using hit by blast
    subgoal unfolding load_current_frame using miss by blast
    done
qed

lemma c_preload_ended_fields:
  "image_files c_preload_ended = [''A'', ''B'', ''C'']"
  "current_index c_preload_ended = 1"
  "cache c_preload_ended = \<lparr>capacity = 15, items = []\<rparr>"
  "inflight_loads c_preload_ended = {''A'', ''B''}"
  "request_id c_preload_ended = 3"
  "started c_preload_ended =
     [\<lparr>thread_request_id = 1, thread_path = ''B'', thread_role = ''main''\<rparr>,
      \<lparr>thread_request_id = 2, thread_path = ''A'', thread_role = ''preload''\<rparr>,
      \<lparr>thread_request_id = 3, thread_path = ''C'', thread_role = ''preload''\<rparr>]"
  "thumb_thread c_preload_ended =
     Some \<lparr>tl_token = 1, tl_files = [''A'', ''B'', ''C''], tl_files_id = 1\<rparr>"
  "image_files_id c_preload_ended = 1"
  by (auto simp: c_preload_ended_def drop_loader_def Let_def opened_abc)

lemma c_cached_fields:
  "image_files c_cached = [''A'', ''B'', ''C'']"
  "current_index c_cached = 1"
  "cache c_cached = \<lparr>capacity = 15, items = [(''C'', img 3)]\<rparr>"
  by (simp_all add: c_cached_def opened_abc)

text \<open>
  Files A, B, C opened at index 1. When the preload of C has ended without a result,
  a failure for B leaves A, C with index 1 and starts a \<open>main\<close> thread for C, and the
  thumbnail thread sees A, C. When the preload of C has put C in the cache, the same
  failure shows C.
\<close>

theorem C3_skip_corrupted_current_witness:
  "2 \<le> length (image_files c_preload_ended) \<and>
   current_index c_preload_ended = 1 \<and>
   image_files c_preload_ended ! nat 1 = ''B'' \<and>
   ''C'' \<notin> inflight_loads c_preload_ended \<and>
   map_sum id image_files (on_loaded c_preload_ended 1 ''B'' None None None ''main'')
     = Inr [''A'', ''C''] \<and>
   map_sum id current_index (on_loaded c_preload_ended 1 ''B'' None None None ''main'') = Inr 1 \<and>
   map_sum id (\<lambda>s'. ''C'' \<in> inflight_loads s')
     (on_loaded c_preload_ended 1 ''B'' None None None ''main'') = Inr True \<and>
   map_sum id (\<lambda>s'. \<lparr>thread_request_id = 4, thread_path = ''C'', thread_role = ''main''\<rparr>
                       \<in> set (started s'))
     (on_loaded c_preload_ended 1 ''B'' None None None ''main'') = Inr True \<and>
   map_sum id status_message (on_loaded c_preload_ended 1 ''B'' None None None ''main'')
     = Inr ''Loading image...'' \<and>
   map_sum id (\<lambda>s'. map_option tl_files (thumb_thread s'))
     (on_loaded c_preload_ended 1 ''B'' None None None ''main'') = Inr (Some [''A'', ''C'']) \<and>
   on_loaded (opened [''A'', ''B'', ''C''] 1) 3 ''C'' (Some 3) (Some []) (Some []) ''preload''
     = Inr c_cached \<and>
   map_sum id viewer_item (on_loaded c_cached 1 ''B'' None None None ''main'') = Inr (Some 3)"
proof -
  let ?s = c_preload_ended
  note f = c_preload_ended_fields
  have h: "2 \<le> length (image_files ?s)" "0 \<le> current_index ?s"
    "current_index ?s < int (length (image_files ?s))"
    "''B'' = image_files ?s ! nat (current_index ?s)"
    by (simp_all add: f)
  have fail: "(None :: QImage option) = None \<or> (None :: str_dict option) = None \<or>
    (None :: str_dict option) = None" by simp
  have part1:
    "map_sum id image_files (on_loaded ?s 1 ''B'' None None None ''main'') = Inr [''A'', ''C''] \<and>
     map_sum id current_index (on_loaded ?s 1 ''B'' None None None ''main'') = Inr 1 \<and>
     map_sum id (\<lambda>s'. ''C'' \<in> inflight_loads s')
       (on_loaded ?s 1 ''B'' None None None ''main'') = Inr True \<and>
     map_sum id (\<lambda>s'. \<lparr>thread_request_id = 4, thread_path = ''C'', thread_role = ''main''\<rparr>
                         \<in> set (started s'))
       (on_loaded ?s 1 ''B'' None None None ''main'') = Inr True \<and>
     map_sum id status_message (on_loaded ?s 1 ''B'' None None None ''main'')
       = Inr ''Loading image...'' \<and>
     map_sum id (\<lambda>s'. map_option tl_files (thumb_thread s'))
       (on_loaded ?s 1 ''B'' None None None ''main'') = Inr (Some [''A'', ''C''])"
    using C3_skip_corrupted_current [OF h fail, of 1 "''main''"]
  proof (elim exE conjE)
    fix s'
    assume r: "on_loaded ?s 1 ''B'' None None None ''main'' = Inr s'"
      and fs: "image_files s' = take (nat (current_index ?s)) (image_files ?s) @
                        drop (Suc (nat (current_index ?s))) (image_files ?s)"
      and ci: "current_index s' = min (current_index ?s) (int (length (image_files s')) - 1)"
      and tt: "thumb_thread s' =
         map_option (\<lambda>t. if tl_files_id t = image_files_id ?s
                           then t\<lparr>tl_files := image_files s'\<rparr> else t) (thumb_thread ?s)"
      and ms: "map_of (items (cache ?s)) (image_files s' ! nat (current_index s')) = None \<longrightarrow>
         image_files s' ! nat (current_index s') \<in> inflight_loads s' \<and>
         status_message s' = ''Loading image...'' \<and>
         (\<exists>ts. started s' =
                 started ?s @
                 (if image_files s' ! nat (current_index s') \<in> inflight_loads ?s then []
                  else [\<lparr>thread_request_id = request_id ?s + 1,
                         thread_path = image_files s' ! nat (current_index s'),
                         thread_role = ''main''\<rparr>]) @ ts \<and>
               (\<forall>t \<in> set ts. thread_role t = ''preload''))"
    have fl: "image_files s' = [''A'', ''C'']" using fs by (simp add: f)
    have ix: "current_index s' = 1" using ci by (simp add: f fl)
    have cur: "image_files s' ! nat (current_index s') = ''C''" by (simp add: fl ix)
    have t2: "map_option tl_files (thumb_thread s') = Some [''A'', ''C'']"
      unfolding tt by (simp add: f fl)
    have c0: "map_of (items (cache ?s)) ''C'' = None" by (simp add: f)
    have nf: "''C'' \<notin> inflight_loads ?s" by (simp add: f)
    from ms [unfolded cur] c0 have m1: "''C'' \<in> inflight_loads s'"
      and m2: "status_message s' = ''Loading image...''"
      and m3: "\<exists>ts. started s' =
                 started ?s @
                 (if ''C'' \<in> inflight_loads ?s then []
                  else [\<lparr>thread_request_id = request_id ?s + 1, thread_path = ''C'',
                         thread_role = ''main''\<rparr>]) @ ts \<and>
               (\<forall>t \<in> set ts. thread_role t = ''preload'')"
      by blast+
    from m3 obtain ts where "started s' =
        started ?s @ [\<lparr>thread_request_id = request_id ?s + 1, thread_path = ''C'',
                         thread_role = ''main''\<rparr>] @ ts"
      using nf by auto
    then have th: "\<lparr>thread_request_id = 4, thread_path = ''C'', thread_role = ''main''\<rparr>
        \<in> set (started s')"
      by (simp add: f)
    show ?thesis using fl ix m1 m2 th t2 by (simp add: r)
  qed
  have reach: "on_loaded (opened [''A'', ''B'', ''C''] 1) 3 ''C'' (Some 3) (Some []) (Some []) ''preload''
     = Inr c_cached"
    by (simp add: on_loaded_success opened_abc c_cached_def img_def cache_put_def od_set_def
        od_keys_def cur_path_def py_index_def py_norm_index_def)
  note g = c_cached_fields
  have h2: "2 \<le> length (image_files c_cached)" "0 \<le> current_index c_cached"
    "current_index c_cached < int (length (image_files c_cached))"
    "''B'' = image_files c_cached ! nat (current_index c_cached)"
    by (simp_all add: g)
  have part2: "map_sum id viewer_item (on_loaded c_cached 1 ''B'' None None None ''main'') = Inr (Some 3)"
    using C3_skip_corrupted_current [OF h2 fail, of 1 "''main''"]
  proof (elim exE conjE)
    fix s2
    assume r: "on_loaded c_cached 1 ''B'' None None None ''main'' = Inr s2"
      and fs: "image_files s2 = take (nat (current_index c_cached)) (image_files c_cached) @
                        drop (Suc (nat (current_index c_cached))) (image_files c_cached)"
      and ci: "current_index s2 = min (current_index c_cached) (int (length (image_files s2)) - 1)"
      and ht: "\<forall>item. map_of (items (cache c_cached)) (image_files s2 ! nat (current_index s2)) = Some item \<longrightarrow>
         viewer_item s2 = Some (qimage item) \<and>
         current_info s2 = info item \<and> current_meta s2 = meta item \<and>
         title s2 = TitleImage (current_index s2 + 1) (length (image_files s2))
                      (basename (image_files s2 ! nat (current_index s2)))"
    have fl2: "image_files s2 = [''A'', ''C'']" using fs by (simp add: g)
    have ix2: "current_index s2 = 1" using ci by (simp add: g fl2)
    have "map_of (items (cache c_cached)) (image_files s2 ! nat (current_index s2)) = Some (img 3)"
      by (simp add: fl2 ix2 g)
    then have "viewer_item s2 = Some (qimage (img 3))" using ht by blast
    then show ?thesis by (simp add: r img_def)
  qed
  have pre: "2 \<le> length (image_files ?s)" "current_index ?s = 1"
    "image_files ?s ! nat 1 = ''B''" "''C'' \<notin> inflight_loads ?s"
    by (simp_all add: f)
  show ?thesis using pre part1 reach part2 by (intro conjI) blast+
qed

subsection \<open>Folder scan\<close>

lemma lower_char_dot [simp]: "lower_char ch = CHR ''.'' \<longleftrightarrow> ch = CHR ''.''"
  by (auto simp: lower_char_def split: if_splits)

lemma lower_char_sep [simp]: "is_sep (lower_char ch) \<longleftrightarrow> is_sep ch"
  by (auto simp: lower_char_def is_sep_def split: if_splits)

lemma basename_lower: "basename (lower p) = lower (basename p)"
  by (simp add: basename_def lower_def rev_map takeWhile_map comp_def)

lemma splitext_ext_lower: "splitext_ext (lower p) = lower (splitext_ext p)"
proof -
  define r where "r = rev (basename p)"
  define e where "e = takeWhile (\<lambda>ch. ch \<noteq> CHR ''.'') r"
  define rest where "rest = dropWhile (\<lambda>ch. ch \<noteq> CHR ''.'') r"
  have r': "rev (basename (lower p)) = map lower_char r"
    unfolding r_def by (simp only: basename_lower) (simp add: lower_def rev_map)
  have e': "takeWhile (\<lambda>ch. ch \<noteq> CHR ''.'') (map lower_char r) = map lower_char e"
    by (simp add: e_def takeWhile_map comp_def)
  have d': "dropWhile (\<lambda>ch. ch \<noteq> CHR ''.'') (map lower_char r) = map lower_char rest"
    by (simp add: rest_def dropWhile_map comp_def)
  have a: "splitext_ext (lower p) =
        (case map lower_char rest of [] \<Rightarrow> []
         | d # stem \<Rightarrow>
             if (\<exists>ch \<in> set stem. ch \<noteq> CHR ''.'') then rev (map lower_char e @ [d]) else [])"
    unfolding splitext_ext_def Let_def r' e' d' ..
  have b: "splitext_ext p =
        (case rest of [] \<Rightarrow> []
         | d # stem \<Rightarrow> if (\<exists>ch \<in> set stem. ch \<noteq> CHR ''.'') then rev (e @ [d]) else [])"
    unfolding splitext_ext_def Let_def r_def [symmetric] e_def [symmetric] rest_def [symmetric] ..
  show ?thesis unfolding a b by (cases rest) (simp_all add: lower_def rev_map)
qed

lemma ext_case_insensitive:
  "lower n = lower n' \<Longrightarrow> lower (splitext_ext n) = lower (splitext_ext n')"
  by (metis splitext_ext_lower)

lemma scan_entries_ok:
  assumes "\<forall>e \<in> set es. \<exists>b. entry_is_file e = Inr b"
  shows "scan_entries abspath es acc =
           Inr (acc @ map (\<lambda>e. abspath (entry_path e))
                  (filter (\<lambda>e. entry_is_file e = Inr True \<and>
                     lower (splitext_ext (entry_name e)) \<in> SUPPORTED_EXTENSIONS) es))"
  using assms
proof (induction es arbitrary: acc)
  case Nil
  show ?case by simp
next
  case (Cons e es)
  then obtain b where b: "entry_is_file e = Inr b" by auto
  have "\<forall>e \<in> set es. \<exists>b. entry_is_file e = Inr b" using Cons.prems by simp
  then show ?case using b Cons.IH by simp
qed

lemma scan_entries_error:
  assumes "\<exists>e \<in> set es. \<exists>err. entry_is_file e = Inl err"
  shows "\<exists>err. scan_entries abspath es acc = Inl err"
  using assms
proof (induction es arbitrary: acc)
  case Nil
  then show ?case by simp
next
  case (Cons e es)
  show ?case
  proof (cases "entry_is_file e")
    case (Inl err)
    then show ?thesis by simp
  next
    case (Inr b)
    then have "\<exists>e \<in> set es. \<exists>err. entry_is_file e = Inl err" using Cons.prems by auto
    then show ?thesis using Cons.IH Inr by simp
  qed
qed

lemma list_index_first:
  "x \<in> set xs \<Longrightarrow>
     list_index xs x < length xs \<and> xs ! list_index xs x = x \<and>
     (\<forall>j < list_index xs x. xs ! j \<noteq> x)"
proof (induction xs)
  case Nil
  then show ?case by simp
next
  case (Cons y ys)
  show ?case
  proof (cases "y = x")
    case True
    then show ?thesis by simp
  next
    case False
    then have "x \<in> set ys" using Cons.prems by simp
    from Cons.IH [OF this] False show ?thesis by (auto simp: nth_Cons split: nat.splits)
  qed
qed

text \<open>
  Claim C9. Let \<open>abspath\<close> never return the empty string. When the folder can be read
  and \<open>is_file()\<close> answers for every entry, \<open>FolderScanThread.run\<close> emits its token
  and folder with the list of the absolute paths of the entries that are files and
  whose extension, lowercased, is in \<open>SUPPORTED_EXTENSIONS\<close>, sorted in
  lexicographic order; the index is the first position of the absolute path of the
  selected file when a non-empty selection is given and occurs in the list, and 0
  otherwise. When \<open>scandir\<close> or an \<open>is_file()\<close> call raises, it emits the empty
  list and index 0. The extension test gives the same answer for two names that differ
  only in letter case.
\<close>

theorem C9_folder_scan:
  assumes "\<And>p. abspath p \<noteq> []"
  shows "(scandir folder = Inr entries \<and> (\<forall>e \<in> set entries. \<exists>b. entry_is_file e = Inr b) \<longrightarrow>
           (\<exists>files idx.
              FolderScanThread_run scandir abspath (FolderScanThread_init abspath tok folder sel) =
                (tok, folder, \<lparr>payload_files = Some files, payload_index = Some idx\<rparr>) \<and>
              files = sort (map (\<lambda>e. abspath (entry_path e))
                        (filter (\<lambda>e. entry_is_file e = Inr True \<and>
                           lower (splitext_ext (entry_name e)) \<in> SUPPORTED_EXTENSIONS) entries)) \<and>
              sorted files \<and>
              (\<forall>p. sel = Some p \<and> p \<noteq> [] \<and> abspath p \<in> set files \<longrightarrow>
                 0 \<le> idx \<and> nat idx < length files \<and> files ! nat idx = abspath p \<and>
                 (\<forall>j < nat idx. files ! j \<noteq> abspath p)) \<and>
              (\<not> (\<exists>p. sel = Some p \<and> p \<noteq> [] \<and> abspath p \<in> set files) \<longrightarrow> idx = 0))) \<and>
         ((\<exists>err. scandir folder = Inl err) \<or>
          (scandir folder = Inr entries \<and> (\<exists>e \<in> set entries. \<exists>err. entry_is_file e = Inl err)) \<longrightarrow>
            FolderScanThread_run scandir abspath (FolderScanThread_init abspath tok folder sel) =
              (tok, folder, \<lparr>payload_files = Some [], payload_index = Some 0\<rparr>)) \<and>
         (\<forall>n n'. lower n = lower n' \<longrightarrow>
            (lower (splitext_ext n) \<in> SUPPORTED_EXTENSIONS \<longleftrightarrow>
             lower (splitext_ext n') \<in> SUPPORTED_EXTENSIONS))"
proof (intro conjI impI allI)
  assume a: "scandir folder = Inr entries \<and> (\<forall>e \<in> set entries. \<exists>b. entry_is_file e = Inr b)"
  define t where "t = FolderScanThread_init abspath tok folder sel"
  let ?files = "sort (map (\<lambda>e. abspath (entry_path e))
                        (filter (\<lambda>e. entry_is_file e = Inr True \<and>
                           lower (splitext_ext (entry_name e)) \<in> SUPPORTED_EXTENSIONS) entries))"
  define idx where
    "idx = (case fs_selected t of None \<Rightarrow> 0
            | Some x \<Rightarrow> if x \<noteq> [] \<and> x \<in> set ?files then int (list_index ?files x) else 0)"
  have tf: "fs_token t = tok" "fs_folder t = folder"
    "fs_selected t = (case sel of None \<Rightarrow> None | Some p \<Rightarrow> if p = [] then None else Some (abspath p))"
    by (simp_all add: t_def FolderScanThread_init_def)
  have se: "scan_entries abspath entries [] =
      Inr (map (\<lambda>e. abspath (entry_path e))
             (filter (\<lambda>e. entry_is_file e = Inr True \<and>
                lower (splitext_ext (entry_name e)) \<in> SUPPORTED_EXTENSIONS) entries))"
    using a scan_entries_ok [of entries abspath "[]"] by simp
  have run: "FolderScanThread_run scandir abspath t =
      (tok, folder, \<lparr>payload_files = Some ?files, payload_index = Some idx\<rparr>)"
    using a se by (simp add: FolderScanThread_run_def Let_def tf(1,2) idx_def)
  have hit: "0 \<le> idx \<and> nat idx < length ?files \<and> ?files ! nat idx = abspath p \<and>
                 (\<forall>j < nat idx. ?files ! j \<noteq> abspath p)"
    if "sel = Some p \<and> p \<noteq> [] \<and> abspath p \<in> set ?files" for p
  proof -
    have "idx = int (list_index ?files (abspath p))"
      using that assms by (simp add: idx_def tf(3))
    then show ?thesis using list_index_first [of "abspath p" ?files] that by simp
  qed
  have miss: "idx = 0" if "\<not> (\<exists>p. sel = Some p \<and> p \<noteq> [] \<and> abspath p \<in> set ?files)"
    using that by (cases sel) (auto simp: idx_def tf(3))
  have srt: "sorted ?files" by simp
  show "\<exists>files idx.
              FolderScanThread_run scandir abspath (FolderScanThread_init abspath tok folder sel) =
                (tok, folder, \<lparr>payload_files = Some files, payload_index = Some idx\<rparr>) \<and>
              files = sort (map (\<lambda>e. abspath (entry_path e))
                        (filter (\<lambda>e. entry_is_file e = Inr True \<and>
                           lower (splitext_ext (entry_name e)) \<in> SUPPORTED_EXTENSIONS) entries)) \<and>
              sorted files \<and>
              (\<forall>p. sel = Some p \<and> p \<noteq> [] \<and> abspath p \<in> set files \<longrightarrow>
                 0 \<le> idx \<and> nat idx < length files \<and> files ! nat idx = abspath p \<and>
                 (\<forall>j < nat idx. files ! j \<noteq> abspath p)) \<and>
              (\<not> (\<exists>p. sel = Some p \<and> p \<noteq> [] \<and> abspath p \<in> set files) \<longrightarrow> idx = 0)"
    using run srt hit miss unfolding t_def by blast
next
  assume "(\<exists>err. scandir folder = Inl err) \<or>
          (scandir folder = Inr entries \<and> (\<exists>e \<in> set entries. \<exists>err. entry_is_file e = Inl err))"
  then show "FolderScanThread_run scandir abspath (FolderScanThread_init abspath tok folder sel) =
              (tok, folder, \<lparr>payload_files = Some [], payload_index = Some 0\<rparr>)"
  proof
    assume "\<exists>err. scandir folder = Inl err"
    then show ?thesis
      by (auto simp: FolderScanThread_run_def Let_def FolderScanThread_init_def)
  next
    assume b: "scandir folder = Inr entries \<and> (\<exists>e \<in> set entries. \<exists>err. entry_is_file e = Inl err)"
    then obtain err where "scan_entries abspath entries [] = Inl err"
      using scan_entries_error [of entries abspath "[]"] by blast
    then show ?thesis using b
      by (simp add: FolderScanThread_run_def Let_def FolderScanThread_init_def)
  qed
next
  fix n n' :: string
  assume "lower n = lower n'"
  then show "lower (splitext_ext n) \<in> SUPPORTED_EXTENSIONS \<longleftrightarrow>
             lower (splitext_ext n') \<in> SUPPORTED_EXTENSIONS"
    using ext_case_insensitive [of n n'] by simp
qed


lemma example_abspath_nonempty: "example_abspath p \<noteq> []"
  by (auto simp: example_abspath_def)

lemma example_supported:
  "filter (\<lambda>e. entry_is_file e = Inr True \<and>
       lower (splitext_ext (entry_name e)) \<in> SUPPORTED_EXTENSIONS) example_entries =
     [\<lparr>entry_name = ''b.PNG'', entry_path = ''/d/b.PNG'', entry_is_file = Inr True\<rparr>,
      \<lparr>entry_name = ''a.jpg'', entry_path = ''/d/a.jpg'', entry_is_file = Inr True\<rparr>]"
  by (simp add: example_entries_def lower_def lower_char_def splitext_ext_def basename_def
      is_sep_def SUPPORTED_EXTENSIONS_def)

text \<open>
  A folder with two images among five entries, the second image selected; and a
  folder that cannot be read.
\<close>

theorem C9_folder_scan_witness:
  "example_scandir ''/d'' = Inr example_entries \<and>
   FolderScanThread_run example_scandir example_abspath
       (FolderScanThread_init example_abspath 1 ''/d'' (Some ''/d/b.PNG'')) =
     (1, ''/d'', \<lparr>payload_files = Some [''/d/a.jpg'', ''/d/b.PNG''], payload_index = Some 1\<rparr>) \<and>
   example_scandir ''/nowhere'' = Inl OSError \<and>
   FolderScanThread_run example_scandir example_abspath
       (FolderScanThread_init example_abspath 2 ''/nowhere'' None) =
     (2, ''/nowhere'', \<lparr>payload_files = Some [], payload_index = Some 0\<rparr>) \<and>
   lower ''b.PNG'' = lower ''B.png'' \<and>
   lower (splitext_ext ''B.png'') \<in> SUPPORTED_EXTENSIONS"
proof -
  note c9 = C9_folder_scan [of example_abspath, OF example_abspath_nonempty]
  have sd: "example_scandir ''/d'' = Inr example_entries" "example_scandir ''/nowhere'' = Inl OSError"
    by (simp_all add: example_scandir_def)
  have isf: "\<forall>e \<in> set example_entries. \<exists>b. entry_is_file e = Inr b"
    by (auto simp: example_entries_def)
  from c9 [of example_scandir "''/d''" example_entries 1 "Some ''/d/b.PNG''"] sd(1) isf
  obtain files idx where
    run: "FolderScanThread_run example_scandir example_abspath
            (FolderScanThread_init example_abspath 1 ''/d'' (Some ''/d/b.PNG'')) =
          (1, ''/d'', \<lparr>payload_files = Some files, payload_index = Some idx\<rparr>)"
    and files: "files = sort (map (\<lambda>e. example_abspath (entry_path e))
                        (filter (\<lambda>e. entry_is_file e = Inr True \<and>
                           lower (splitext_ext (entry_name e)) \<in> SUPPORTED_EXTENSIONS) example_entries))"
    and pos: "\<forall>p. Some ''/d/b.PNG'' = Some p \<and> p \<noteq> [] \<and> example_abspath p \<in> set files \<longrightarrow>
                 0 \<le> idx \<and> nat idx < length files \<and> files ! nat idx = example_abspath p \<and>
                 (\<forall>j < nat idx. files ! j \<noteq> example_abspath p)"
    by blast
  have fl: "files = [''/d/a.jpg'', ''/d/b.PNG'']"
    unfolding files example_supported by (simp add: example_abspath_def)
  have ab: "example_abspath ''/d/b.PNG'' = ''/d/b.PNG''" by (simp add: example_abspath_def)
  have "0 \<le> idx \<and> nat idx < length files \<and> files ! nat idx = ''/d/b.PNG''"
    using pos ab fl by auto
  then have "0 \<le> idx" "nat idx < 2" "[''/d/a.jpg'', ''/d/b.PNG''] ! nat idx = ''/d/b.PNG''"
    using fl by simp_all
  then have "nat idx = 1" by (cases "nat idx") auto
  then have ix: "idx = 1" using \<open>0 \<le> idx\<close> by simp
  have fail: "FolderScanThread_run example_scandir example_abspath
       (FolderScanThread_init example_abspath 2 ''/nowhere'' None) =
     (2, ''/nowhere'', \<lparr>payload_files = Some [], payload_index = Some 0\<rparr>)"
    using c9 [of example_scandir "''/nowhere''" "[]" 2 None] sd(2) by blast
  have lw: "lower ''b.PNG'' = lower ''B.png''" by (simp add: lower_def lower_char_def)
  have "lower (splitext_ext ''b.PNG'') \<in> SUPPORTED_EXTENSIONS"
    by (simp add: lower_def lower_char_def splitext_ext_def basename_def is_sep_def
        SUPPORTED_EXTENSIONS_def)
  then have sup: "lower (splitext_ext ''B.png'') \<in> SUPPORTED_EXTENSIONS"
    using c9 [of example_scandir "''/d''" example_entries 1 None] lw by blast
  show ?thesis using sd run fl ix fail lw sup by simp
qed


end
